theory Spec2Isabelle
  imports Main
begin

section \<open>The crane unloading problem: grids, paths and the two solvers\<close>

text \<open>
  The development embeds \<^verbatim>\<open>cranes_algs.hpp\<close>: the exhaustive solver
  \<^verbatim>\<open>crane_unloading_exhaustive\<close> and the dynamic-programming solver
  \<^verbatim>\<open>crane_unloading_dyn_prog\<close>. Both are written against the classes
  \<^verbatim>\<open>grid\<close> and \<^verbatim>\<open>path\<close> of \<^verbatim>\<open>cranes_types.hpp\<close>, which the repository's
  sources do not hold; they are modelled from the specification.

  Sizes and coordinates (\<^verbatim>\<open>size_t\<close>) are modelled as \<open>nat\<close>. The only
  subtraction, \<^verbatim>\<open>rows + columns - 2\<close>, is evaluated after both dimensions have
  been asserted positive, so it never goes below zero; the dimensions are sizes of
  allocated vectors, so their sum stays far below \<open>2 ^ 64\<close>; and the bit counter of
  the exhaustive solver stays below \<open>2 ^ 63\<close> because of the asserted bound on
  \<^verbatim>\<open>max_steps\<close>.
\<close>

subsection \<open>Cells, directions and failures\<close>

datatype cell_kind = CELL_EMPTY | CELL_CRANE | CELL_BUILDING

datatype step_direction = STEP_DIRECTION_EAST | STEP_DIRECTION_SOUTH

text \<open>
  A failed \<^verbatim>\<open>assert\<close>, an out-of-range access to the grid, and a dereference of an
  empty \<^verbatim>\<open>std::optional\<close> are the three ways a run can go wrong.
\<close>

datatype error = AssertionFailed | OutOfRange | EmptyOptional

subsection \<open>The grid\<close>

text \<open>
  Modelled from the spec: the class \<^verbatim>\<open>grid\<close> of \<^verbatim>\<open>cranes_types.hpp\<close>, which is
  not among the sources. A grid has fixed dimensions, which may be zero, and classifies
  every cell.
\<close>

record grid =
  rows :: nat
  columns :: nat
  cells :: "nat \<Rightarrow> nat \<Rightarrow> cell_kind"

text \<open>
  Modelled from the spec: \<^verbatim>\<open>grid::get\<close> returns the classification of a cell and
  fails with an out-of-range error outside \<open>[0, rows) \<times> [0, columns)\<close>.
\<close>

definition get :: "grid \<Rightarrow> nat \<Rightarrow> nat \<Rightarrow> error + cell_kind" where
  "get g r c = (if r < rows g \<and> c < columns g then Inr (cells g r c) else Inl OutOfRange)"

subsection \<open>Paths\<close>

text \<open>
  Modelled from the spec: the class \<^verbatim>\<open>path\<close> of \<^verbatim>\<open>cranes_types.hpp\<close>, which is
  not among the sources. A path is the sequence of its moves, starting at \<open>(0,0)\<close>,
  together with the running crane count; the current row and column are derived from
  the moves. The grid the path is bound to is passed to each operation.
\<close>

record path =
  path_steps :: "step_direction list"
  path_cranes :: nat

text \<open>Modelled from the spec: \<^verbatim>\<open>total_cranes\<close> returns the cumulative count.\<close>

definition total_cranes :: "path \<Rightarrow> nat" where
  "total_cranes p = path_cranes p"

text \<open>
  Modelled from the spec: the current row and column of a path, its derived state: the
  number of its moves south and of its moves east.
\<close>

definition final_row :: "path \<Rightarrow> nat" where
  "final_row p = length (filter (\<lambda>d. d = STEP_DIRECTION_SOUTH) (path_steps p))"

definition final_column :: "path \<Rightarrow> nat" where
  "final_column p = length (filter (\<lambda>d. d = STEP_DIRECTION_EAST) (path_steps p))"

text \<open>
  Modelled from the spec: the constructor \<^verbatim>\<open>path(setting)\<close>: no moves, and a crane
  count of 1 if the cell \<open>(0,0)\<close> holds a crane, else 0. It reads the start cell.
\<close>

definition new_path :: "grid \<Rightarrow> error + path" where
  "new_path g =
     (case get g 0 0 of
        Inl e \<Rightarrow> Inl e
      | Inr k \<Rightarrow> Inr \<lparr>path_steps = [], path_cranes = (if k = CELL_CRANE then 1 else 0)\<rparr>)"

text \<open>
  Modelled from the spec: the cell a step leads to, one row down for a step south and
  one column right for a step east.
\<close>

definition dest_row :: "path \<Rightarrow> step_direction \<Rightarrow> nat" where
  "dest_row p d = (if d = STEP_DIRECTION_SOUTH then final_row p + 1 else final_row p)"

definition dest_column :: "path \<Rightarrow> step_direction \<Rightarrow> nat" where
  "dest_column p d = (if d = STEP_DIRECTION_EAST then final_column p + 1 else final_column p)"

text \<open>
  Modelled from the spec: \<^verbatim>\<open>is_step_valid\<close> holds when the destination cell lies
  within the grid and is not a building.
\<close>

definition is_step_valid :: "grid \<Rightarrow> path \<Rightarrow> step_direction \<Rightarrow> bool" where
  "is_step_valid g p d =
     (dest_row p d < rows g \<and> dest_column p d < columns g \<and>
      cells g (dest_row p d) (dest_column p d) \<noteq> CELL_BUILDING)"

text \<open>
  Modelled from the spec: the effect of \<^verbatim>\<open>add_step\<close> on a path: the move is appended
  and the destination cell is counted if it holds a crane.
\<close>

definition moved :: "grid \<Rightarrow> path \<Rightarrow> step_direction \<Rightarrow> path" where
  "moved g p d =
     \<lparr>path_steps = path_steps p @ [d],
      path_cranes = path_cranes p +
        (if cells g (dest_row p d) (dest_column p d) = CELL_CRANE then 1 else 0)\<rparr>"

text \<open>
  Modelled from the spec: \<^verbatim>\<open>add_step\<close> asserts \<^verbatim>\<open>is_step_valid\<close> and then moves.
\<close>

definition add_step :: "grid \<Rightarrow> path \<Rightarrow> step_direction \<Rightarrow> error + path" where
  "add_step g p d =
     (if \<not> is_step_valid g p d then Inl AssertionFailed else Inr (moved g p d))"

subsection \<open>Counted loops\<close>

text \<open>
  A \<^verbatim>\<open>for\<close> loop over an index range runs its body on each index in turn, threading
  the loop's state; a failure in the body ends the run.
\<close>

fun for_each :: "nat list \<Rightarrow> (nat \<Rightarrow> 's \<Rightarrow> error + 's) \<Rightarrow> 's \<Rightarrow> error + 's" where
  "for_each [] body s = Inr s"
| "for_each (i # is) body s =
     (case body i s of Inl e \<Rightarrow> Inl e | Inr s' \<Rightarrow> for_each is body s')"

subsection \<open>The exhaustive solver\<close>

text \<open>
  One arm of the inner \<^verbatim>\<open>if\<close>: extend the candidate when the step is valid, else
  clear the flag. The loop goes on either way.
\<close>

definition try_step ::
  "grid \<Rightarrow> step_direction \<Rightarrow> path \<times> bool \<Rightarrow> error + path \<times> bool" where
  "try_step g d cv =
     (case cv of (cur, valid) \<Rightarrow>
        if is_step_valid g cur d then
          (case add_step g cur d of
             Inl e \<Rightarrow> Inl e
           | Inr cur' \<Rightarrow> Inr (cur', valid))
        else Inr (cur, False))"

text \<open>The body of the loop over \<open>k\<close>: \<^verbatim>\<open>int bit = (bits >> k) & 1\<close>.\<close>

definition replay_bit ::
  "grid \<Rightarrow> nat \<Rightarrow> nat \<Rightarrow> path \<times> bool \<Rightarrow> error + path \<times> bool" where
  "replay_bit g bits k cv =
     (let bit = (bits div 2 ^ k) mod 2 in
      if bit = 1 then try_step g STEP_DIRECTION_EAST cv
      else try_step g STEP_DIRECTION_SOUTH cv)"

text \<open>The candidate \<open>cur\<close> and its flag \<open>valid\<close> after the loop over \<open>k\<close>.\<close>

definition candidate :: "grid \<Rightarrow> nat \<Rightarrow> nat \<Rightarrow> error + path \<times> bool" where
  "candidate g steps bits =
     (case new_path g of
        Inl e \<Rightarrow> Inl e
      | Inr cur \<Rightarrow> for_each [0..<steps] (replay_bit g bits) (cur, True))"

text \<open>The body of the loop over \<open>bits\<close>.\<close>

definition update_best :: "grid \<Rightarrow> nat \<Rightarrow> nat \<Rightarrow> path \<Rightarrow> error + path" where
  "update_best g steps bits best =
     (case candidate g steps bits of
        Inl e \<Rightarrow> Inl e
      | Inr (cur, valid) \<Rightarrow>
          Inr (if valid \<and> total_cranes cur > total_cranes best then cur else best))"

text \<open>
  The loop over \<open>bits\<close> runs from 0 to \<^verbatim>\<open>pow(2,steps)-1\<close>. The bound is computed in
  double precision, where it is exact up to 53 steps; the model takes the exact value
  throughout. Lemma \<open>more_bits_same_best\<close> below shows that running the loop over a
  longer range does not change the best path.
\<close>

definition all_bits :: "grid \<Rightarrow> nat \<Rightarrow> path \<Rightarrow> error + path" where
  "all_bits g steps best = for_each [0..<2 ^ steps] (update_best g steps) best"

text \<open>
  The solver: the three assertions, the zero-length path as the first \<open>best\<close>, and the
  loop over the path lengths \<open>steps = 1, \<dots>, max_steps\<close>.
\<close>

definition crane_unloading_exhaustive :: "grid \<Rightarrow> error + path" where
  "crane_unloading_exhaustive g =
     (if \<not> rows g > 0 then Inl AssertionFailed
      else if \<not> columns g > 0 then Inl AssertionFailed
      else
        let max_steps = rows g + columns g - 2 in
        if \<not> max_steps < 64 then Inl AssertionFailed
        else
          (case new_path g of
             Inl e \<Rightarrow> Inl e
           | Inr best \<Rightarrow> for_each [1..<max_steps + 1] (all_bits g) best))"

subsection \<open>The dynamic-programming solver\<close>

type_synonym cell_type = "path option"

type_synonym table = "cell_type list list"

text \<open>
  The table \<open>A\<close> is a vector of rows of optional paths. Reading \<open>A[r][c]\<close> and storing
  into it; the solver only does so within the table's dimensions.
\<close>

definition entry :: "table \<Rightarrow> nat \<Rightarrow> nat \<Rightarrow> cell_type" where
  "entry A r c = A ! r ! c"

definition assign :: "table \<Rightarrow> nat \<Rightarrow> nat \<Rightarrow> cell_type \<Rightarrow> table" where
  "assign A r c v = A[r := (A ! r)[c := v]]"

text \<open>
  A copied predecessor, extended by one step when the step is valid
  (lines 97--103 and 105--111).
\<close>

definition extended :: "grid \<Rightarrow> path \<Rightarrow> step_direction \<Rightarrow> error + cell_type" where
  "extended g p d =
     (if is_step_valid g p d then
        (case add_step g p d of Inl e \<Rightarrow> Inl e | Inr p' \<Rightarrow> Inr (Some p'))
      else Inr (Some p))"

text \<open>The candidates \<^verbatim>\<open>from_above\<close> and \<^verbatim>\<open>from_left\<close>, absent when nothing is copied.\<close>

definition from_above :: "grid \<Rightarrow> table \<Rightarrow> nat \<Rightarrow> nat \<Rightarrow> error + cell_type" where
  "from_above g A r c =
     (if r > 0 \<and> entry A (r - 1) c \<noteq> None
      then extended g (the (entry A (r - 1) c)) STEP_DIRECTION_SOUTH
      else Inr None)"

definition from_left :: "grid \<Rightarrow> table \<Rightarrow> nat \<Rightarrow> nat \<Rightarrow> error + cell_type" where
  "from_left g A r c =
     (if c > 0 \<and> entry A r (c - 1) \<noteq> None
      then extended g (the (entry A r (c - 1))) STEP_DIRECTION_EAST
      else Inr None)"

text \<open>The three \<^verbatim>\<open>if\<close> statements that store into \<open>A[r][c]\<close> (lines 115--130).\<close>

definition store_cell :: "table \<Rightarrow> nat \<Rightarrow> nat \<Rightarrow> cell_type \<Rightarrow> cell_type \<Rightarrow> table" where
  "store_cell A r c abv lft =
     (let A1 = (if abv \<noteq> None \<and> lft \<noteq> None then
                  (if total_cranes (the abv) > total_cranes (the lft)
                   then assign A r c abv
                   else assign A r c lft)
                else A);
          A2 = (if abv \<noteq> None \<and> \<not> (lft \<noteq> None) then assign A1 r c abv else A1);
          A3 = (if lft \<noteq> None \<and> \<not> (abv \<noteq> None) then assign A2 r c lft else A2)
      in A3)"

text \<open>The body of the inner loop that fills the table.\<close>

definition fill_cell :: "grid \<Rightarrow> nat \<Rightarrow> nat \<Rightarrow> table \<Rightarrow> error + table" where
  "fill_cell g r c A =
     (case get g r c of
        Inl e \<Rightarrow> Inl e
      | Inr k \<Rightarrow>
          if k \<noteq> CELL_BUILDING then
            (case from_above g A r c of
               Inl e \<Rightarrow> Inl e
             | Inr abv \<Rightarrow>
                 (case from_left g A r c of
                    Inl e \<Rightarrow> Inl e
                  | Inr lft \<Rightarrow> Inr (store_cell A r c abv lft)))
          else Inr A)"

text \<open>The two nested loops that fill the table, row by row (lines 89--133).\<close>

definition fill_table :: "grid \<Rightarrow> table \<Rightarrow> error + table" where
  "fill_table g A =
     for_each [0..<rows g] (\<lambda>r. for_each [0..<columns g] (fill_cell g r)) A"

text \<open>
  The scan for the best entry. \<open>best\<close> points into the table, so it is modelled as the
  pair of indices it points at.
\<close>

definition scan_cell :: "table \<Rightarrow> nat \<Rightarrow> nat \<Rightarrow> nat \<times> nat \<Rightarrow> error + nat \<times> nat" where
  "scan_cell A r c best =
     (case entry A r c of
        None \<Rightarrow> Inr best
      | Some p \<Rightarrow>
          (case entry A (fst best) (snd best) of
             None \<Rightarrow> Inl EmptyOptional
           | Some b \<Rightarrow> Inr (if total_cranes p > total_cranes b then (r, c) else best)))"

text \<open>The two nested loops of the scan (lines 138--144).\<close>

definition scan_table :: "grid \<Rightarrow> table \<Rightarrow> nat \<times> nat \<Rightarrow> error + nat \<times> nat" where
  "scan_table g A best =
     for_each [0..<rows g] (\<lambda>r. for_each [0..<columns g] (scan_cell A r)) best"

text \<open>
  The table before the loops: every entry absent, then the fresh path stored in
  \<open>A[0][0]\<close> and the assertion that it is there (lines 84--87).
\<close>

definition init_table :: "grid \<Rightarrow> error + table" where
  "init_table g =
     (let A = replicate (rows g) (replicate (columns g) None) in
      case new_path g of
        Inl e \<Rightarrow> Inl e
      | Inr p \<Rightarrow>
          let A' = assign A 0 0 (Some p) in
          if entry A' 0 0 \<noteq> None then Inr A' else Inl AssertionFailed)"

text \<open>
  The solver: the two assertions on the grid, the table, the fill, the assertion on the
  entry \<open>best\<close> first points at, the scan, and the last assertion before \<open>best\<close> is
  dereferenced.
\<close>

definition crane_unloading_dyn_prog :: "grid \<Rightarrow> error + path" where
  "crane_unloading_dyn_prog g =
     (if \<not> rows g > 0 then Inl AssertionFailed
      else if \<not> columns g > 0 then Inl AssertionFailed
      else
        (case init_table g of
           Inl e \<Rightarrow> Inl e
         | Inr A0 \<Rightarrow>
             (case fill_table g A0 of
                Inl e \<Rightarrow> Inl e
              | Inr A \<Rightarrow>
                  if \<not> entry A 0 0 \<noteq> None then Inl AssertionFailed
                  else
                    (case scan_table g A (0, 0) of
                       Inl e \<Rightarrow> Inl e
                     | Inr best \<Rightarrow>
                         (case entry A (fst best) (snd best) of
                            None \<Rightarrow> Inl AssertionFailed
                          | Some p \<Rightarrow> Inr p)))))"

section \<open>Reference notions\<close>

text \<open>
  The notions below are not part of the program. They say what a valid path and a best
  path are, and name the states the loops pass through, so that the properties of the
  solvers can be stated.
\<close>

subsection \<open>Walks and valid paths\<close>

text \<open>The zero-length path at the start cell, as the constructor builds it.\<close>

definition start :: "grid \<Rightarrow> path" where
  "start g = \<lparr>path_steps = [], path_cranes = (if cells g 0 0 = CELL_CRANE then 1 else 0)\<rparr>"

text \<open>
  Following a sequence of moves from a fresh path with \<^verbatim>\<open>add_step\<close> alone: the walk
  fails at the first invalid step and stays failed. A sequence is a valid path on the
  grid exactly when its walk yields a path.
\<close>

definition walk :: "grid \<Rightarrow> step_direction list \<Rightarrow> error + path" where
  "walk g ds =
     foldl (\<lambda>res d. case res of Inl e \<Rightarrow> Inl e | Inr p \<Rightarrow> add_step g p d) (new_path g) ds"

text \<open>A path value is genuine when walking its own moves yields it, crane count included.\<close>

definition genuine :: "grid \<Rightarrow> path \<Rightarrow> bool" where
  "genuine g p \<longleftrightarrow> walk g (path_steps p) = Inr p"

definition ends_at :: "grid \<Rightarrow> nat \<Rightarrow> nat \<Rightarrow> path \<Rightarrow> bool" where
  "ends_at g r c p \<longleftrightarrow> genuine g p \<and> final_row p = r \<and> final_column p = c"

definition crane_at :: "grid \<Rightarrow> nat \<Rightarrow> nat \<Rightarrow> nat" where
  "crane_at g r c = (if cells g r c = CELL_CRANE then 1 else 0)"

text \<open>A best path of the grid: a valid path that no valid path beats.\<close>

definition optimal :: "grid \<Rightarrow> path \<Rightarrow> bool" where
  "optimal g p \<longleftrightarrow> genuine g p \<and> (\<forall>q. genuine g q \<longrightarrow> total_cranes q \<le> total_cranes p)"

text \<open>
  What a table entry for the cell \<open>(r,c)\<close> should be: absent when no valid path ends
  there, else a valid path ending there that no other such path beats.
\<close>

definition best_at :: "grid \<Rightarrow> nat \<Rightarrow> nat \<Rightarrow> cell_type \<Rightarrow> bool" where
  "best_at g r c po \<longleftrightarrow>
     (case po of
        None \<Rightarrow> \<forall>q. \<not> ends_at g r c q
      | Some p \<Rightarrow> ends_at g r c p \<and> (\<forall>q. ends_at g r c q \<longrightarrow> total_cranes q \<le> total_cranes p))"

subsection \<open>The cells a path visits\<close>

definition next_cell :: "nat \<times> nat \<Rightarrow> step_direction \<Rightarrow> nat \<times> nat" where
  "next_cell rc d =
     (case d of
        STEP_DIRECTION_EAST \<Rightarrow> (fst rc, snd rc + 1)
      | STEP_DIRECTION_SOUTH \<Rightarrow> (fst rc + 1, snd rc))"

fun cells_from :: "nat \<times> nat \<Rightarrow> step_direction list \<Rightarrow> (nat \<times> nat) list" where
  "cells_from rc [] = [rc]"
| "cells_from rc (d # ds) = rc # cells_from (next_cell rc d) ds"

text \<open>The cells a sequence of moves passes over, the start cell first.\<close>

definition visited :: "step_direction list \<Rightarrow> (nat \<times> nat) list" where
  "visited ds = cells_from (0, 0) ds"

text \<open>Each cell lies one row below or one column to the right of the one before it.\<close>

fun one_apart :: "(nat \<times> nat) list \<Rightarrow> bool" where
  "one_apart (a # b # rest) \<longleftrightarrow>
     (b = (fst a + 1, snd a) \<or> b = (fst a, snd a + 1)) \<and> one_apart (b # rest)"
| "one_apart _ \<longleftrightarrow> True"

text \<open>A cell inside the grid that is not a building.\<close>

definition free_cell :: "grid \<Rightarrow> nat \<times> nat \<Rightarrow> bool" where
  "free_cell g rc \<longleftrightarrow>
     fst rc < rows g \<and> snd rc < columns g \<and> cells g (fst rc) (snd rc) \<noteq> CELL_BUILDING"

definition on_grid :: "grid \<Rightarrow> step_direction list \<Rightarrow> bool" where
  "on_grid g ds \<longleftrightarrow> list_all (free_cell g) (visited ds) \<and> one_apart (visited ds)"

subsection \<open>Bit patterns and candidates\<close>

text \<open>The moves a bit pattern encodes: bit \<open>k\<close> set means east, clear means south.\<close>

definition bit_dir :: "nat \<Rightarrow> nat \<Rightarrow> step_direction" where
  "bit_dir bits k =
     (if (bits div 2 ^ k) mod 2 = 1 then STEP_DIRECTION_EAST else STEP_DIRECTION_SOUTH)"

definition bit_dirs :: "nat \<Rightarrow> nat \<Rightarrow> step_direction list" where
  "bit_dirs steps bits = map (bit_dir bits) [0..<steps]"

text \<open>
  Attempting every move of a sequence in order: a valid move is appended, an invalid
  one is skipped and clears the flag, and the remaining moves are attempted all the
  same.
\<close>

fun attempts :: "grid \<Rightarrow> step_direction list \<Rightarrow> path \<times> bool \<Rightarrow> path \<times> bool" where
  "attempts g [] cv = cv"
| "attempts g (d # ds) cv =
     (if is_step_valid g (fst cv) d then attempts g ds (moved g (fst cv) d, snd cv)
      else attempts g ds (fst cv, False))"

text \<open>
  Replaying a pattern by a walk, which stops at the first invalid step: the path when
  all \<open>steps\<close> moves are valid, nothing otherwise.
\<close>

definition full_replay :: "grid \<Rightarrow> nat \<Rightarrow> nat \<Rightarrow> path option" where
  "full_replay g steps bits =
     (case walk g (bit_dirs steps bits) of Inl e \<Rightarrow> None | Inr p \<Rightarrow> Some p)"

text \<open>
  The valid candidates in the order the solver tries them: by length, and for each
  length by the value of the bit pattern.
\<close>

definition valid_candidates_of :: "grid \<Rightarrow> nat \<Rightarrow> path list" where
  "valid_candidates_of g steps = List.map_filter (full_replay g steps) [0..<2 ^ steps]"

definition valid_candidates :: "grid \<Rightarrow> path list" where
  "valid_candidates g =
     concat (map (valid_candidates_of g) [1..<rows g + columns g - 2 + 1])"

text \<open>Keeping the incumbent unless the candidate has strictly more cranes.\<close>

definition better :: "path \<Rightarrow> path \<Rightarrow> path" where
  "better best c = (if total_cranes c > total_cranes best then c else best)"

text \<open>
  The search that looks at valid candidates only: starting from the zero-length path,
  each valid candidate in turn replaces the incumbent when it is strictly better.
\<close>

definition exhaustive_valid_only :: "grid \<Rightarrow> path" where
  "exhaustive_valid_only g = foldl better (start g) (valid_candidates g)"

subsection \<open>The run of a nested loop\<close>

text \<open>
  The state after the first \<open>n\<close> iterations of the body of two nested loops, the inner
  one over \<open>C\<close> columns: iteration \<open>n\<close> works on row \<open>n div C\<close> and column \<open>n mod C\<close>.
\<close>

fun nested_upto :: "(nat \<Rightarrow> nat \<Rightarrow> 's \<Rightarrow> error + 's) \<Rightarrow> nat \<Rightarrow> nat \<Rightarrow> 's \<Rightarrow> error + 's" where
  "nested_upto body C 0 s = Inr s"
| "nested_upto body C (Suc n) s =
     (case nested_upto body C n s of
        Inl e \<Rightarrow> Inl e
      | Inr s' \<Rightarrow> body (n div C) (n mod C) s')"

text \<open>
  The table of the dynamic-programming solver after \<open>n\<close> iterations of the loop that
  fills it; \<open>n = 0\<close> is the table the loop starts from, \<open>n = rows * columns\<close> the one it
  ends with.
\<close>

definition table_after :: "grid \<Rightarrow> nat \<Rightarrow> error + table" where
  "table_after g n =
     (case init_table g of
        Inl e \<Rightarrow> Inl e
      | Inr A0 \<Rightarrow> nested_upto (fill_cell g) (columns g) n A0)"

definition table_dims :: "grid \<Rightarrow> table \<Rightarrow> bool" where
  "table_dims g A \<longleftrightarrow> length A = rows g \<and> (\<forall>r < rows g. length (A ! r) = columns g)"

text \<open>
  The entry the three stores of the loop body leave behind, given the two candidates:
  \<open>None\<close> stands for no store at all.
\<close>

definition preferred :: "cell_type \<Rightarrow> cell_type \<Rightarrow> cell_type" where
  "preferred abv lft =
     (case abv of
        None \<Rightarrow> lft
      | Some x \<Rightarrow>
          (case lft of
             None \<Rightarrow> abv
           | Some y \<Rightarrow> if total_cranes x > total_cranes y then abv else lft))"

text \<open>The entry above, extended south, and the entry to the left, extended east.\<close>

definition south_of :: "grid \<Rightarrow> nat \<Rightarrow> cell_type \<Rightarrow> cell_type" where
  "south_of g r po = (if 0 < r then map_option (\<lambda>p. moved g p STEP_DIRECTION_SOUTH) po else None)"

definition east_of :: "grid \<Rightarrow> nat \<Rightarrow> cell_type \<Rightarrow> cell_type" where
  "east_of g c po = (if 0 < c then map_option (\<lambda>p. moved g p STEP_DIRECTION_EAST) po else None)"

text \<open>
  The invariant of the loop that fills the table, after \<open>n\<close> iterations: the cells
  reached so far hold what they should, the others are still empty, and \<open>A[0][0]\<close>
  holds the zero-length path.
\<close>

definition filled :: "grid \<Rightarrow> nat \<Rightarrow> table \<Rightarrow> bool" where
  "filled g n A \<longleftrightarrow>
     table_dims g A \<and>
     entry A 0 0 = Some (start g) \<and>
     (\<forall>r < rows g. \<forall>c < columns g.
        r * columns g + c < n \<longrightarrow> best_at g r c (entry A r c)) \<and>
     (\<forall>r < rows g. \<forall>c < columns g.
        n \<le> r * columns g + c \<longrightarrow> 0 < r * columns g + c \<longrightarrow> entry A r c = None)"

text \<open>
  The invariant of the scan, after \<open>n\<close> iterations: \<open>best\<close> points at a present entry
  that none of the entries seen so far beats.
\<close>

definition scanned :: "grid \<Rightarrow> table \<Rightarrow> nat \<Rightarrow> nat \<times> nat \<Rightarrow> bool" where
  "scanned g A n best \<longleftrightarrow>
     fst best < rows g \<and> snd best < columns g \<and>
     (\<exists>b. entry A (fst best) (snd best) = Some b \<and>
        (\<forall>r < rows g. \<forall>c < columns g. r * columns g + c < n \<longrightarrow>
           (\<forall>p. entry A r c = Some p \<longrightarrow> total_cranes p \<le> total_cranes b)))"

section \<open>Example grids\<close>

text \<open>A single cell holding a crane.\<close>

definition single_crane :: grid where
  "single_crane = \<lparr>rows = 1, columns = 1, cells = (\<lambda>r c. CELL_CRANE)\<rparr>"

text \<open>Two by two, nothing on it.\<close>

definition open_yard :: grid where
  "open_yard = \<lparr>rows = 2, columns = 2, cells = (\<lambda>r c. CELL_EMPTY)\<rparr>"

text \<open>Two by two, a building east of the start and a crane in the far corner.\<close>

definition blocked_yard :: grid where
  "blocked_yard =
     \<lparr>rows = 2, columns = 2,
      cells = (\<lambda>r c. if r = 0 \<and> c = 1 then CELL_BUILDING
                     else if r = 1 \<and> c = 1 then CELL_CRANE else CELL_EMPTY)\<rparr>"

text \<open>A grid without rows, and a single row too long for the exhaustive solver.\<close>

definition no_rows :: grid where
  "no_rows = \<lparr>rows = 0, columns = 3, cells = (\<lambda>r c. CELL_EMPTY)\<rparr>"

definition long_quay :: grid where
  "long_quay = \<lparr>rows = 1, columns = 66, cells = (\<lambda>r c. CELL_EMPTY)\<rparr>"

text \<open>The two paths to the far corner of the open grid, and two tables of the runs.\<close>

definition east_south :: path where
  "east_south = \<lparr>path_steps = [STEP_DIRECTION_EAST, STEP_DIRECTION_SOUTH], path_cranes = 0\<rparr>"

definition south_east :: path where
  "south_east = \<lparr>path_steps = [STEP_DIRECTION_SOUTH, STEP_DIRECTION_EAST], path_cranes = 0\<rparr>"

definition open_yard_table :: table where
  "open_yard_table =
     [[Some \<lparr>path_steps = [], path_cranes = 0\<rparr>,
       Some \<lparr>path_steps = [STEP_DIRECTION_EAST], path_cranes = 0\<rparr>],
      [Some \<lparr>path_steps = [STEP_DIRECTION_SOUTH], path_cranes = 0\<rparr>, None]]"

definition blocked_yard_table :: table where
  "blocked_yard_table =
     [[Some \<lparr>path_steps = [], path_cranes = 0\<rparr>, None],
      [Some \<lparr>path_steps = [STEP_DIRECTION_SOUTH], path_cranes = 0\<rparr>, None]]"

text \<open>
  Two by two with a crane east of the start, the table of its run when the loop reaches
  the far corner, and the two paths to that corner.
\<close>

definition crane_yard :: grid where
  "crane_yard =
     \<lparr>rows = 2, columns = 2,
      cells = (\<lambda>r c. if r = 0 \<and> c = 1 then CELL_CRANE else CELL_EMPTY)\<rparr>"

definition crane_yard_table :: table where
  "crane_yard_table =
     [[Some \<lparr>path_steps = [], path_cranes = 0\<rparr>,
       Some \<lparr>path_steps = [STEP_DIRECTION_EAST], path_cranes = 1\<rparr>],
      [Some \<lparr>path_steps = [STEP_DIRECTION_SOUTH], path_cranes = 0\<rparr>, None]]"

definition east_south_crane :: path where
  "east_south_crane =
     \<lparr>path_steps = [STEP_DIRECTION_EAST, STEP_DIRECTION_SOUTH], path_cranes = 1\<rparr>"

section \<open>Properties\<close>

subsection \<open>Loops run in sequence\<close>

lemma for_each_append:
  "for_each (xs @ ys) body s =
     (case for_each xs body s of Inl e \<Rightarrow> Inl e | Inr s' \<Rightarrow> for_each ys body s')"
  by (induction xs arbitrary: s) (auto split: sum.splits)

lemma for_each_snoc:
  "for_each (xs @ [x]) body s =
     (case for_each xs body s of Inl e \<Rightarrow> Inl e | Inr s' \<Rightarrow> body x s')"
  by (simp add: for_each_append split: sum.splits)

lemma for_each_upt_Suc:
  "for_each [0..<Suc n] body s =
     (case for_each [0..<n] body s of Inl e \<Rightarrow> Inl e | Inr s' \<Rightarrow> body n s')"
  by (simp add: for_each_snoc)

subsection \<open>Fresh paths and walks\<close>

lemma new_path_start:
  "0 < rows g \<Longrightarrow> 0 < columns g \<Longrightarrow> new_path g = Inr (start g)"
  by (simp add: new_path_def get_def start_def)

lemma new_path_Inr:
  "new_path g = Inr p \<Longrightarrow> 0 < rows g \<and> 0 < columns g \<and> p = start g"
  by (auto simp: new_path_def get_def start_def split: if_splits)

lemma walk_Nil: "walk g [] = new_path g"
  by (simp add: walk_def)

lemma walk_snoc:
  "walk g (ds @ [d]) = (case walk g ds of Inl e \<Rightarrow> Inl e | Inr p \<Rightarrow> add_step g p d)"
  by (simp add: walk_def)

subsection \<open>The replay of a bit pattern\<close>

text \<open>
  The loop over \<open>k\<close> never fails; it attempts every move of the pattern, and its flag
  tells whether the walk along the pattern succeeds.
\<close>

lemma try_step_eq:
  "try_step g d cv = Inr (attempts g [d] cv)"
  by (cases cv) (simp add: try_step_def add_step_def)

lemma attempts_append:
  "attempts g (ds @ es) cv = attempts g es (attempts g ds cv)"
  by (induction ds arbitrary: cv) auto

lemma bit_dirs_Suc: "bit_dirs (Suc k) bits = bit_dirs k bits @ [bit_dir bits k]"
  by (simp add: bit_dirs_def)

lemma replay_bit_eq:
  "replay_bit g bits k cv = Inr (attempts g [bit_dir bits k] cv)"
  by (simp add: replay_bit_def bit_dir_def try_step_eq Let_def)

lemma replay_loop:
  "for_each [0..<k] (replay_bit g bits) cv = Inr (attempts g (bit_dirs k bits) cv)"
proof (induction k)
  case 0
  show ?case by (simp add: bit_dirs_def)
next
  case (Suc k)
  have "for_each [0..<Suc k] (replay_bit g bits) cv =
          replay_bit g bits k (attempts g (bit_dirs k bits) cv)"
    by (simp only: for_each_upt_Suc Suc sum.case)
  also have "\<dots> = Inr (attempts g [bit_dir bits k] (attempts g (bit_dirs k bits) cv))"
    by (rule replay_bit_eq)
  finally show ?case
    by (simp only: bit_dirs_Suc attempts_append)
qed

lemma candidate_attempts:
  "0 < rows g \<Longrightarrow> 0 < columns g \<Longrightarrow>
   candidate g steps bits = Inr (attempts g (bit_dirs steps bits) (start g, True))"
  by (simp add: candidate_def new_path_start replay_loop)

lemma attempts_False: "snd cv = False \<Longrightarrow> snd (attempts g ds cv) = False"
  by (induction ds arbitrary: cv) auto

lemma attempts_walk_gen:
  "walk g ds0 = Inr p \<Longrightarrow>
   (case walk g (ds0 @ ds) of
      Inl e \<Rightarrow> snd (attempts g ds (p, True)) = False
    | Inr q \<Rightarrow> attempts g ds (p, True) = (q, True))"
proof (induction ds arbitrary: ds0 p)
  case Nil
  then show ?case by simp
next
  case (Cons d ds)
  show ?case
  proof (cases "is_step_valid g p d")
    case True
    then have w: "walk g (ds0 @ [d]) = Inr (moved g p d)"
      using Cons.prems by (simp add: walk_snoc add_step_def)
    from Cons.IH [OF w] True show ?thesis by (simp split: sum.splits)
  next
    case False
    then have w: "walk g (ds0 @ [d]) = Inl AssertionFailed"
      using Cons.prems by (simp add: walk_snoc add_step_def)
    have "walk g ((ds0 @ [d]) @ ds) = Inl AssertionFailed"
      unfolding walk_def foldl_append
      using w [unfolded walk_def] by (simp, induction ds) auto
    with False show ?thesis by (simp add: attempts_False)
  qed
qed

subsection \<open>Valid paths\<close>

lemma walk_steps: "walk g ds = Inr p \<Longrightarrow> path_steps p = ds"
proof (induction ds arbitrary: p rule: rev_induct)
  case Nil
  then show ?case by (auto simp: walk_Nil start_def dest: new_path_Inr)
next
  case (snoc d ds)
  then show ?case
    by (auto simp: walk_snoc add_step_def moved_def split: sum.splits if_splits)
qed

lemma genuine_walk: "walk g ds = Inr p \<Longrightarrow> genuine g p"
  using walk_steps [of g ds p] by (simp add: genuine_def)

lemma genuine_start: "0 < rows g \<Longrightarrow> 0 < columns g \<Longrightarrow> genuine g (start g)"
  by (simp add: genuine_def walk_Nil new_path_start start_def)

lemma genuine_moved: "genuine g p \<Longrightarrow> is_step_valid g p d \<Longrightarrow> genuine g (moved g p d)"
  by (simp add: genuine_def walk_snoc add_step_def moved_def)

lemma genuine_cases:
  assumes "genuine g q"
  shows "q = start g \<or> (\<exists>p d. genuine g p \<and> is_step_valid g p d \<and> q = moved g p d)"
proof (cases "path_steps q" rule: rev_cases)
  case Nil
  with assms show ?thesis
    by (auto simp: genuine_def walk_Nil dest: new_path_Inr)
next
  case (snoc ds d)
  with assms have w: "walk g (ds @ [d]) = Inr q"
    by (simp add: genuine_def)
  then obtain p where p: "walk g ds = Inr p" and a: "add_step g p d = Inr q"
    by (auto simp: walk_snoc split: sum.splits)
  from a have "is_step_valid g p d" "q = moved g p d"
    by (auto simp: add_step_def split: if_splits)
  with genuine_walk [OF p] show ?thesis by blast
qed

lemma genuine_nonempty: "genuine g p \<Longrightarrow> 0 < rows g \<and> 0 < columns g"
proof (induction "path_steps p" arbitrary: p rule: rev_induct)
  case Nil
  then show ?case by (auto simp: genuine_def walk_Nil dest: new_path_Inr)
next
  case (snoc d ds)
  from snoc.prems snoc.hyps(2) [symmetric] obtain p' where "walk g ds = Inr p'"
    by (auto simp: genuine_def walk_snoc split: sum.splits)
  with snoc.hyps(1) [of p'] show ?case
    using walk_steps genuine_walk by blast
qed

lemma final_row_start [simp]: "final_row (start g) = 0"
  by (simp add: final_row_def start_def)

lemma final_column_start [simp]: "final_column (start g) = 0"
  by (simp add: final_column_def start_def)

lemma final_row_moved [simp]: "final_row (moved g p d) = dest_row p d"
  by (simp add: final_row_def moved_def dest_row_def)

lemma final_column_moved [simp]: "final_column (moved g p d) = dest_column p d"
  by (simp add: final_column_def moved_def dest_column_def final_row_def)

lemma total_cranes_moved:
  "total_cranes (moved g p d) = total_cranes p + crane_at g (dest_row p d) (dest_column p d)"
  by (simp add: total_cranes_def moved_def crane_at_def)

lemma path_length: "length (path_steps p) = final_row p + final_column p"
proof -
  have "length (filter (\<lambda>d. d = STEP_DIRECTION_SOUTH) ds) +
        length (filter (\<lambda>d. d = STEP_DIRECTION_EAST) ds) = length ds" for ds
  proof (induction ds)
    case Nil
    show ?case by simp
  next
    case (Cons d ds)
    then show ?case by (cases d) auto
  qed
  then show ?thesis by (simp add: final_row_def final_column_def)
qed

lemma genuine_in_range:
  assumes "genuine g p"
  shows "final_row p < rows g \<and> final_column p < columns g"
  using genuine_cases [OF assms] genuine_nonempty [OF assms]
  by (auto simp: is_step_valid_def)

lemma genuine_not_building:
  assumes "genuine g p" and "path_steps p \<noteq> []"
  shows "cells g (final_row p) (final_column p) \<noteq> CELL_BUILDING"
  using genuine_cases [OF assms(1)] assms(2)
  by (auto simp: is_step_valid_def start_def)

subsection \<open>The exhaustive solver as a selection over valid candidates\<close>

lemma candidate_full_replay:
  assumes "0 < rows g" and "0 < columns g"
  shows "candidate g steps bits =
           Inr (attempts g (bit_dirs steps bits) (start g, True)) \<and>
         (case full_replay g steps bits of
            None \<Rightarrow> snd (attempts g (bit_dirs steps bits) (start g, True)) = False
          | Some q \<Rightarrow> attempts g (bit_dirs steps bits) (start g, True) = (q, True))"
proof -
  have "walk g [] = Inr (start g)"
    using assms by (simp add: walk_Nil new_path_start)
  from attempts_walk_gen [OF this, of "bit_dirs steps bits"] candidate_attempts [OF assms]
  show ?thesis
    by (simp add: full_replay_def split: sum.splits)
qed

lemma update_best_eq:
  assumes "0 < rows g" and "0 < columns g"
  shows "update_best g steps bits best =
           Inr (case full_replay g steps bits of None \<Rightarrow> best | Some c \<Rightarrow> better best c)"
  using candidate_full_replay [OF assms, of steps bits]
  by (auto simp: update_best_def better_def split: option.splits prod.splits)

lemma for_each_pure:
  "(\<And>i s. i \<in> set xs \<Longrightarrow> body i s = Inr (f s i)) \<Longrightarrow> for_each xs body s = Inr (foldl f s xs)"
  by (induction xs arbitrary: s) auto

lemma foldl_map_filter:
  "foldl (\<lambda>b i. case h i of None \<Rightarrow> b | Some c \<Rightarrow> f b c) b xs = foldl f b (List.map_filter h xs)"
  by (induction xs arbitrary: b) (auto simp: List.map_filter_simps split: option.splits)

lemma all_bits_eq:
  assumes "0 < rows g" and "0 < columns g"
  shows "all_bits g steps best = Inr (foldl better best (valid_candidates_of g steps))"
  unfolding all_bits_def valid_candidates_of_def foldl_map_filter [symmetric]
  by (rule for_each_pure) (rule update_best_eq [OF assms])

lemma foldl_foldl_concat:
  "foldl (\<lambda>b i. foldl f b (h i)) b xs = foldl f b (concat (map h xs))"
  by (induction xs arbitrary: b) auto

lemma exhaustive_as_fold:
  assumes "0 < rows g" and "0 < columns g" and "rows g + columns g - 2 < 64"
  shows "crane_unloading_exhaustive g = Inr (foldl better (start g) (valid_candidates g))"
proof -
  have "for_each [1..<rows g + columns g - 2 + 1] (all_bits g) (start g) =
        Inr (foldl (\<lambda>b i. foldl better b (valid_candidates_of g i)) (start g)
               [1..<rows g + columns g - 2 + 1])"
    by (rule for_each_pure) (rule all_bits_eq [OF assms(1,2)])
  then show ?thesis
    using assms
    by (simp add: crane_unloading_exhaustive_def new_path_start foldl_foldl_concat
        valid_candidates_def Let_def)
qed

subsection \<open>Selection by strict improvement\<close>

text \<open>It returns a maximum, and the first one in the order of the list.\<close>

lemma foldl_better_mem: "foldl better b xs \<in> set (b # xs)"
  by (induction xs arbitrary: b) (auto simp: better_def)

lemma foldl_better_ge_init: "total_cranes b \<le> total_cranes (foldl better b xs)"
proof (induction xs arbitrary: b)
  case Nil
  show ?case by simp
next
  case (Cons x xs)
  have "total_cranes b \<le> total_cranes (better b x)"
    by (simp add: better_def)
  also have "\<dots> \<le> total_cranes (foldl better (better b x) xs)"
    by (rule Cons.IH)
  finally show ?case by simp
qed

lemma foldl_better_ge:
  "x \<in> set (b # xs) \<Longrightarrow> total_cranes x \<le> total_cranes (foldl better b xs)"
proof (induction xs arbitrary: b)
  case Nil
  then show ?case by simp
next
  case (Cons y ys)
  have le: "total_cranes (better b y) \<le> total_cranes (foldl better (better b y) ys)"
    by (rule foldl_better_ge_init)
  from Cons.prems consider "x = b" | "x = y" | "x \<in> set ys" by auto
  then show ?case
  proof cases
    case 1
    have "total_cranes b \<le> total_cranes (better b y)" by (simp add: better_def)
    with le 1 show ?thesis by simp
  next
    case 2
    have "total_cranes y \<le> total_cranes (better b y)" by (simp add: better_def)
    with le 2 show ?thesis by simp
  next
    case 3
    then show ?thesis using Cons.IH [of "better b y"] by simp
  qed
qed

lemma foldl_better_first:
  "\<exists>pre post. b # xs = pre @ foldl better b xs # post \<and>
     (\<forall>y \<in> set pre. total_cranes y < total_cranes (foldl better b xs)) \<and>
     (\<forall>y \<in> set post. total_cranes y \<le> total_cranes (foldl better b xs))"
proof (induction xs arbitrary: b)
  case Nil
  have "[b] = [] @ foldl better b [] # []" by simp
  then show ?case by fastforce
next
  case (Cons x xs)
  define r where "r = foldl better (better b x) xs"
  have goal: "foldl better b (x # xs) = r" by (simp add: r_def)
  from Cons.IH [of "better b x"] obtain pre post where
    split: "better b x # xs = pre @ r # post" and
    pre: "\<forall>y \<in> set pre. total_cranes y < total_cranes r" and
    post: "\<forall>y \<in> set post. total_cranes y \<le> total_cranes r"
    unfolding r_def by blast
  have ge: "total_cranes (better b x) \<le> total_cranes r"
    unfolding r_def by (rule foldl_better_ge_init)
  have "\<exists>pre post. b # x # xs = pre @ r # post \<and>
     (\<forall>y \<in> set pre. total_cranes y < total_cranes r) \<and>
     (\<forall>y \<in> set post. total_cranes y \<le> total_cranes r)"
  proof (cases "total_cranes x > total_cranes b")
    case True
    then have bx: "better b x = x" by (simp add: better_def)
    from ge True have "total_cranes b < total_cranes r" by (simp add: bx)
    with pre have "\<forall>y \<in> set (b # pre). total_cranes y < total_cranes r" by simp
    moreover from split have "b # x # xs = (b # pre) @ r # post" by (simp add: bx)
    ultimately show ?thesis using post by blast
  next
    case False
    then have bx: "better b x = b" by (simp add: better_def)
    show ?thesis
    proof (cases pre)
      case Nil
      with split have r: "b = r" and xs: "xs = post" by (simp_all add: bx)
      have "b # x # xs = [] @ r # (x # post)" using r xs by simp
      moreover have "\<forall>y \<in> set (x # post). total_cranes y \<le> total_cranes r"
        using post False r by auto
      ultimately show ?thesis by fastforce
    next
      case (Cons a pre')
      with split have a: "a = b" and xs: "xs = pre' @ r # post" by (simp_all add: bx)
      have "b # x # xs = (b # x # pre') @ r # post" using xs by simp
      moreover have "\<forall>y \<in> set (b # x # pre'). total_cranes y < total_cranes r"
        using pre Cons a False by auto
      ultimately show ?thesis using post by blast
    qed
  qed
  then show ?case unfolding goal .
qed

subsection \<open>Every sequence of moves is encoded by a bit pattern\<close>

lemma bit_dir_0: "bit_dir (b + 2 * n) 0 = (if b mod 2 = 1 then STEP_DIRECTION_EAST else STEP_DIRECTION_SOUTH)"
  by (simp add: bit_dir_def)

lemma bit_dir_Suc: "b < 2 \<Longrightarrow> bit_dir (b + 2 * n) (Suc k) = bit_dir n k"
proof -
  assume "b < 2"
  then have "(b + 2 * n) div 2 = n" by simp
  then have "(b + 2 * n) div 2 ^ Suc k = n div 2 ^ k"
    by (simp add: div_mult2_eq)
  then show ?thesis by (simp only: bit_dir_def)
qed

lemma bit_dirs_Cons:
  "b < 2 \<Longrightarrow> bit_dirs (Suc k) (b + 2 * n) = bit_dir (b + 2 * n) 0 # bit_dirs k n"
proof -
  assume b: "b < 2"
  have "[0..<Suc k] = 0 # map Suc [0..<k]"
    by (simp add: upt_conv_Cons map_Suc_upt del: upt_Suc)
  then show ?thesis
    by (simp add: bit_dirs_def bit_dir_Suc [OF b] del: upt_Suc)
qed

lemma bit_dirs_onto:
  "\<exists>bits < 2 ^ length ds. bit_dirs (length ds) bits = ds"
proof (induction ds)
  case Nil
  show ?case by (simp add: bit_dirs_def)
next
  case (Cons d ds)
  then obtain n where n: "n < 2 ^ length ds" and ds: "bit_dirs (length ds) n = ds"
    by blast
  define b :: nat where "b = (if d = STEP_DIRECTION_EAST then 1 else 0)"
  have b: "b < 2" by (simp add: b_def)
  have "bit_dir (b + 2 * n) 0 = d"
    by (cases d) (simp_all add: bit_dir_def b_def)
  with bit_dirs_Cons [OF b, of "length ds" n] ds
  have "bit_dirs (length (d # ds)) (b + 2 * n) = d # ds" by simp
  moreover from n b have "b + 2 * n < 2 ^ length (d # ds)" by simp
  ultimately show ?case by blast
qed

subsection \<open>The exhaustive solver returns a best path\<close>

lemma set_map_filter: "set (List.map_filter f xs) = {y. \<exists>x \<in> set xs. f x = Some y}"
  by (induction xs) (auto simp: List.map_filter_simps split: option.splits)

lemma genuine_enumerated:
  assumes "genuine g q"
  shows "q \<in> set (start g # valid_candidates g)"
proof (cases "path_steps q = []")
  case True
  with assms have "q = start g"
    by (auto simp: genuine_def walk_Nil dest: new_path_Inr)
  then show ?thesis by simp
next
  case False
  define L where "L = length (path_steps q)"
  from False have L1: "1 \<le> L" by (cases "path_steps q") (simp_all add: L_def)
  from genuine_in_range [OF assms] have "L \<le> rows g + columns g - 2"
    unfolding L_def path_length by arith
  with L1 have L: "L \<in> set [1..<rows g + columns g - 2 + 1]" by auto
  from bit_dirs_onto [of "path_steps q"] obtain bits where
    bits: "bits < 2 ^ L" and ds: "bit_dirs L bits = path_steps q"
    by (auto simp: L_def)
  from assms ds have "full_replay g L bits = Some q"
    by (simp add: full_replay_def genuine_def)
  with bits have "q \<in> set (valid_candidates_of g L)"
    by (auto simp: valid_candidates_of_def set_map_filter)
  with L have "q \<in> set (valid_candidates g)"
    unfolding valid_candidates_def by auto
  then show ?thesis by simp
qed

lemma valid_candidates_genuine:
  assumes "q \<in> set (valid_candidates g)"
  shows "genuine g q"
proof -
  from assms obtain L bits where "full_replay g L bits = Some q"
    by (auto simp: valid_candidates_def valid_candidates_of_def set_map_filter)
  then show ?thesis
    by (auto simp: full_replay_def intro: genuine_walk split: sum.splits)
qed

lemma exhaustive_optimal:
  assumes "0 < rows g" and "0 < columns g" and "rows g + columns g - 2 < 64"
  shows "\<exists>p. crane_unloading_exhaustive g = Inr p \<and> optimal g p"
proof -
  let ?p = "foldl better (start g) (valid_candidates g)"
  have "?p \<in> set (start g # valid_candidates g)" by (rule foldl_better_mem)
  then have "genuine g ?p"
    using genuine_start [OF assms(1,2)] valid_candidates_genuine by auto
  moreover have "total_cranes q \<le> total_cranes ?p" if "genuine g q" for q
    by (rule foldl_better_ge) (rule genuine_enumerated [OF that])
  ultimately show ?thesis
    using exhaustive_as_fold [OF assms] by (simp add: optimal_def)
qed

subsection \<open>Nested loops, iteration by iteration\<close>

lemma inner_loop_upto:
  assumes "c \<le> C"
  shows "(case nested_upto body C (r * C) s of
            Inl e \<Rightarrow> Inl e
          | Inr s' \<Rightarrow> for_each [0..<c] (body r) s') = nested_upto body C (r * C + c) s"
  using assms
proof (induction c)
  case 0
  show ?case by (simp split: sum.splits)
next
  case (Suc c)
  then have c: "c < C" and IH: "(case nested_upto body C (r * C) s of
            Inl e \<Rightarrow> Inl e
          | Inr s' \<Rightarrow> for_each [0..<c] (body r) s') = nested_upto body C (r * C + c) s"
    by simp_all
  from c have dm: "(r * C + c) div C = r" "(r * C + c) mod C = c" by simp_all
  show ?case
    unfolding for_each_upt_Suc add_Suc_right nested_upto.simps IH [symmetric] dm
    by (simp split: sum.splits)
qed

lemma nested_loops:
  "for_each [0..<R] (\<lambda>r. for_each [0..<C] (body r)) s = nested_upto body C (R * C) s"
proof (induction R)
  case 0
  show ?case by simp
next
  case (Suc R)
  have "for_each [0..<Suc R] (\<lambda>r. for_each [0..<C] (body r)) s =
        (case nested_upto body C (R * C) s of
           Inl e \<Rightarrow> Inl e
         | Inr s' \<Rightarrow> for_each [0..<C] (body R) s')"
    unfolding for_each_upt_Suc Suc ..
  also have "\<dots> = nested_upto body C (R * C + C) s"
    by (rule inner_loop_upto) simp
  finally show ?case by (simp add: add.commute)
qed

subsection \<open>Reading and writing table entries\<close>

lemma table_dims_assign: "table_dims g A \<Longrightarrow> table_dims g (assign A r c v)"
  by (cases "r < length A") (auto simp: table_dims_def assign_def nth_list_update)

lemma entry_assign:
  "table_dims g A \<Longrightarrow> r < rows g \<Longrightarrow> c < columns g \<Longrightarrow>
   entry (assign A r c v) r' c' = (if r' = r \<and> c' = c then v else entry A r' c')"
  by (auto simp: table_dims_def assign_def entry_def nth_list_update)

lemma table_dims_store_cell: "table_dims g A \<Longrightarrow> table_dims g (store_cell A r c abv lft)"
  by (simp add: store_cell_def Let_def table_dims_assign)

lemma entry_store_cell:
  assumes "table_dims g A" and "r < rows g" and "c < columns g"
  shows "entry (store_cell A r c abv lft) r' c' =
           (if r' = r \<and> c' = c
            then (case preferred abv lft of None \<Rightarrow> entry A r c | Some v \<Rightarrow> Some v)
            else entry A r' c')"
  using assms
  by (cases abv; cases lft)
     (simp_all add: store_cell_def preferred_def entry_assign table_dims_assign)

subsection \<open>Where valid paths end\<close>

lemma ends_at_origin:
  assumes "ends_at g 0 0 q"
  shows "q = start g"
proof -
  from assms have "length (path_steps q) = 0"
    by (simp add: ends_at_def path_length)
  with assms show ?thesis
    by (auto simp: ends_at_def genuine_def walk_Nil dest: new_path_Inr)
qed

lemma best_at_origin:
  assumes "0 < rows g" and "0 < columns g"
  shows "best_at g 0 0 (Some (start g))"
  using genuine_start [OF assms] ends_at_origin [of g]
  by (auto simp: best_at_def ends_at_def)

lemma ends_at_moved:
  assumes "ends_at g r c p" and "is_step_valid g p d"
  shows "ends_at g (dest_row p d) (dest_column p d) (moved g p d)"
  using assms by (simp add: ends_at_def genuine_moved)

lemma ends_at_cases:
  assumes "ends_at g r c q" and "0 < r + c"
  shows "r < rows g \<and> c < columns g \<and> cells g r c \<noteq> CELL_BUILDING \<and>
         ((0 < r \<and> (\<exists>p. ends_at g (r - 1) c p \<and> q = moved g p STEP_DIRECTION_SOUTH)) \<or>
          (0 < c \<and> (\<exists>p. ends_at g r (c - 1) p \<and> q = moved g p STEP_DIRECTION_EAST)))"
proof -
  from assms have gq: "genuine g q" and r: "final_row q = r" and c: "final_column q = c"
    by (simp_all add: ends_at_def)
  from assms(2) r c have "q \<noteq> start g" by auto
  with genuine_cases [OF gq] obtain p d where
    p: "genuine g p" and v: "is_step_valid g p d" and q: "q = moved g p d"
    by blast
  from v r c q have cell: "r < rows g \<and> c < columns g \<and> cells g r c \<noteq> CELL_BUILDING"
    by (auto simp: is_step_valid_def)
  show ?thesis
  proof (cases d)
    case STEP_DIRECTION_EAST
    with r c q have "final_row p = r" "final_column p + 1 = c"
      by (simp_all add: dest_row_def dest_column_def)
    with p have "0 < c" "ends_at g r (c - 1) p"
      by (auto simp: ends_at_def)
    with cell q STEP_DIRECTION_EAST show ?thesis by blast
  next
    case STEP_DIRECTION_SOUTH
    with r c q have "final_row p + 1 = r" "final_column p = c"
      by (simp_all add: dest_row_def dest_column_def)
    with p have "0 < r" "ends_at g (r - 1) c p"
      by (auto simp: ends_at_def)
    with cell q STEP_DIRECTION_SOUTH show ?thesis by blast
  qed
qed

lemma best_at_building:
  assumes "cells g r c = CELL_BUILDING" and "0 < r + c"
  shows "best_at g r c None"
  using ends_at_cases [OF _ assms(2)] assms(1)
  by (auto simp: best_at_def)

text \<open>A path ending above or to the left of a free cell can step onto it.\<close>

lemma step_south_valid:
  assumes "ends_at g (r - 1) c p" and "0 < r" and "r < rows g" and "c < columns g"
    and "cells g r c \<noteq> CELL_BUILDING"
  shows "is_step_valid g p STEP_DIRECTION_SOUTH \<and>
         ends_at g r c (moved g p STEP_DIRECTION_SOUTH) \<and>
         total_cranes (moved g p STEP_DIRECTION_SOUTH) = total_cranes p + crane_at g r c"
proof -
  from assms(1,2) have d: "dest_row p STEP_DIRECTION_SOUTH = r"
    "dest_column p STEP_DIRECTION_SOUTH = c"
    by (simp_all add: ends_at_def dest_row_def dest_column_def)
  with assms have v: "is_step_valid g p STEP_DIRECTION_SOUTH"
    by (simp add: is_step_valid_def)
  from ends_at_moved [OF assms(1) v] d v show ?thesis
    by (simp add: total_cranes_moved)
qed

lemma step_east_valid:
  assumes "ends_at g r (c - 1) p" and "0 < c" and "r < rows g" and "c < columns g"
    and "cells g r c \<noteq> CELL_BUILDING"
  shows "is_step_valid g p STEP_DIRECTION_EAST \<and>
         ends_at g r c (moved g p STEP_DIRECTION_EAST) \<and>
         total_cranes (moved g p STEP_DIRECTION_EAST) = total_cranes p + crane_at g r c"
proof -
  from assms(1,2) have d: "dest_row p STEP_DIRECTION_EAST = r"
    "dest_column p STEP_DIRECTION_EAST = c"
    by (simp_all add: ends_at_def dest_row_def dest_column_def)
  with assms have v: "is_step_valid g p STEP_DIRECTION_EAST"
    by (simp add: is_step_valid_def)
  from ends_at_moved [OF assms(1) v] d v show ?thesis
    by (simp add: total_cranes_moved)
qed

subsection \<open>The recurrence\<close>

text \<open>The best path to a free cell extends a best path to one of its two neighbours.\<close>

lemma best_at_preferred:
  assumes r: "r < rows g" and c: "c < columns g" and free: "cells g r c \<noteq> CELL_BUILDING"
    and pos: "0 < r + c"
    and up: "0 < r \<Longrightarrow> best_at g (r - 1) c a"
    and lf: "0 < c \<Longrightarrow> best_at g r (c - 1) l"
  shows "best_at g r c (preferred (south_of g r a) (east_of g c l))"
proof -
  have abv: "ends_at g r c x" if "south_of g r a = Some x" for x
  proof -
    from that obtain p where "0 < r" "a = Some p" "x = moved g p STEP_DIRECTION_SOUTH"
      by (auto simp: south_of_def split: if_splits)
    with up step_south_valid [OF _ _ r c free] show ?thesis
      by (auto simp: best_at_def)
  qed
  have lft: "ends_at g r c y" if "east_of g c l = Some y" for y
  proof -
    from that obtain p where "0 < c" "l = Some p" "y = moved g p STEP_DIRECTION_EAST"
      by (auto simp: east_of_def split: if_splits)
    with lf step_east_valid [OF _ _ r c free] show ?thesis
      by (auto simp: best_at_def)
  qed
  have bound: "(\<exists>x. south_of g r a = Some x \<and> total_cranes q \<le> total_cranes x) \<or>
               (\<exists>y. east_of g c l = Some y \<and> total_cranes q \<le> total_cranes y)"
    if q: "ends_at g r c q" for q
  proof -
    from ends_at_cases [OF q pos] consider
      p where "0 < r" "ends_at g (r - 1) c p" "q = moved g p STEP_DIRECTION_SOUTH"
    | p where "0 < c" "ends_at g r (c - 1) p" "q = moved g p STEP_DIRECTION_EAST"
      by blast
    then show ?thesis
    proof cases
      case 1
      with up obtain pa where pa: "a = Some pa" "ends_at g (r - 1) c pa"
        "total_cranes p \<le> total_cranes pa"
        by (cases a) (auto simp: best_at_def)
      from step_south_valid [OF 1(2) 1(1) r c free] step_south_valid [OF pa(2) 1(1) r c free]
        pa 1
      show ?thesis by (simp add: south_of_def)
    next
      case 2
      with lf obtain pl where pl: "l = Some pl" "ends_at g r (c - 1) pl"
        "total_cranes p \<le> total_cranes pl"
        by (cases l) (auto simp: best_at_def)
      from step_east_valid [OF 2(2) 2(1) r c free] step_east_valid [OF pl(2) 2(1) r c free]
        pl 2
      show ?thesis by (simp add: east_of_def)
    qed
  qed
  show ?thesis
  proof (cases "south_of g r a")
    case None
    note sa = None
    show ?thesis
    proof (cases "east_of g c l")
      case None
      with sa bound show ?thesis by (auto simp: best_at_def preferred_def)
    next
      case (Some y)
      with sa bound lft show ?thesis by (auto simp: best_at_def preferred_def)
    qed
  next
    case (Some x)
    note sa = Some
    show ?thesis
    proof (cases "east_of g c l")
      case None
      with sa bound abv show ?thesis by (auto simp: best_at_def preferred_def)
    next
      case (Some y)
      with sa bound abv lft show ?thesis
        by (fastforce simp: best_at_def preferred_def)
    qed
  qed
qed

subsection \<open>The loop that fills the table\<close>

lemma cell_index:
  fixes n R C :: nat
  assumes "n < R * C"
  shows "n div C < R" and "n mod C < C" and "n div C * C + n mod C = n"
proof -
  from assms have C: "0 < C" by (cases C) simp_all
  then show "n mod C < C" by simp
  show "n div C * C + n mod C = n" by simp
  from assms show "n div C < R"
    by (simp add: less_mult_imp_div_less)
qed

lemma cell_index_unique:
  fixes n r c C :: nat
  assumes "c < C"
  shows "r * C + c = n \<longleftrightarrow> r = n div C \<and> c = n mod C"
proof
  assume "r * C + c = n"
  then have "n = r * C + c" by simp
  with assms show "r = n div C \<and> c = n mod C" by simp
next
  assume "r = n div C \<and> c = n mod C"
  then show "r * C + c = n" by simp
qed

lemma cell_index_above:
  fixes n C :: nat
  shows "0 < n div C \<Longrightarrow> 0 < C \<Longrightarrow> (n div C - 1) * C + n mod C < n"
proof -
  assume r: "0 < n div C" and C: "0 < C"
  have "(n div C - 1) * C + C = n div C * C"
    using r by (simp add: algebra_simps diff_mult_distrib)
  moreover have "n div C * C + n mod C = n" by simp
  ultimately show ?thesis using C by linarith
qed

lemma cell_index_left:
  fixes n C :: nat
  shows "0 < n mod C \<Longrightarrow> n div C * C + (n mod C - 1) < n"
proof -
  assume "0 < n mod C"
  moreover have "n div C * C + n mod C = n" by simp
  ultimately show ?thesis by linarith
qed

lemma filled_seen:
  "filled g n A \<Longrightarrow> r < rows g \<Longrightarrow> c < columns g \<Longrightarrow> r * columns g + c < n \<Longrightarrow>
   best_at g r c (entry A r c)"
  by (simp add: filled_def)

lemma filled_pending:
  assumes "filled g n A" and "r < rows g" and "c < columns g"
    and "n \<le> r * columns g + c" and "0 < r * columns g + c"
  shows "entry A r c = None"
proof -
  from assms(1) have "\<forall>r < rows g. \<forall>c < columns g.
      n \<le> r * columns g + c \<longrightarrow> 0 < r * columns g + c \<longrightarrow> entry A r c = None"
    unfolding filled_def by (elim conjE)
  from this [rule_format, OF assms(2-5)] show ?thesis .
qed

lemma filledI:
  assumes "table_dims g A" and "entry A 0 0 = Some (start g)"
    and "\<And>r c. r < rows g \<Longrightarrow> c < columns g \<Longrightarrow> r * columns g + c < n \<Longrightarrow>
           best_at g r c (entry A r c)"
    and "\<And>r c. r < rows g \<Longrightarrow> c < columns g \<Longrightarrow> n \<le> r * columns g + c \<Longrightarrow>
           0 < r * columns g + c \<Longrightarrow> entry A r c = None"
  shows "filled g n A"
  unfolding filled_def
proof (intro conjI allI impI)
  show "table_dims g A" "entry A 0 0 = Some (start g)" by fact+
next
  fix r c
  assume "r < rows g" "c < columns g" "r * columns g + c < n"
  then show "best_at g r c (entry A r c)" by (rule assms(3))
next
  fix r c
  assume "r < rows g" "c < columns g" "n \<le> r * columns g + c" "0 < r * columns g + c"
  then show "entry A r c = None" by (rule assms(4))
qed

lemma extended_south:
  assumes "ends_at g (r - 1) c p" and "0 < r" and "r < rows g" and "c < columns g"
    and "cells g r c \<noteq> CELL_BUILDING"
  shows "extended g p STEP_DIRECTION_SOUTH = Inr (Some (moved g p STEP_DIRECTION_SOUTH))"
  using step_south_valid [OF assms] by (simp add: extended_def add_step_def)

lemma extended_east:
  assumes "ends_at g r (c - 1) p" and "0 < c" and "r < rows g" and "c < columns g"
    and "cells g r c \<noteq> CELL_BUILDING"
  shows "extended g p STEP_DIRECTION_EAST = Inr (Some (moved g p STEP_DIRECTION_EAST))"
  using step_east_valid [OF assms] by (simp add: extended_def add_step_def)

lemma from_above_eq:
  assumes "0 < r \<Longrightarrow> best_at g (r - 1) c (entry A (r - 1) c)"
    and "r < rows g" and "c < columns g" and "cells g r c \<noteq> CELL_BUILDING"
  shows "from_above g A r c = Inr (south_of g r (entry A (r - 1) c))"
proof (cases "0 < r \<and> entry A (r - 1) c \<noteq> None")
  case True
  then obtain p where p: "entry A (r - 1) c = Some p" by auto
  with True assms(1) have "ends_at g (r - 1) c p" by (simp add: best_at_def)
  from extended_south [OF this _ assms(2-4)] True p show ?thesis
    by (simp add: from_above_def south_of_def)
next
  case False
  then show ?thesis by (auto simp: from_above_def south_of_def)
qed

lemma from_left_eq:
  assumes "0 < c \<Longrightarrow> best_at g r (c - 1) (entry A r (c - 1))"
    and "r < rows g" and "c < columns g" and "cells g r c \<noteq> CELL_BUILDING"
  shows "from_left g A r c = Inr (east_of g c (entry A r (c - 1)))"
proof (cases "0 < c \<and> entry A r (c - 1) \<noteq> None")
  case True
  then obtain p where p: "entry A r (c - 1) = Some p" by auto
  with True assms(1) have "ends_at g r (c - 1) p" by (simp add: best_at_def)
  from extended_east [OF this _ assms(2-4)] True p show ?thesis
    by (simp add: from_left_def east_of_def)
next
  case False
  then show ?thesis by (auto simp: from_left_def east_of_def)
qed

lemma filled_Suc_same:
  assumes inv: "filled g n A" and r: "r < rows g" and c: "c < columns g"
    and idx: "r * columns g + c = n" and here: "best_at g r c (entry A r c)"
  shows "filled g (Suc n) A"
proof (rule filledI)
  show "table_dims g A" "entry A 0 0 = Some (start g)"
    using inv by (simp_all add: filled_def)
next
  fix r' c'
  assume b: "r' < rows g" "c' < columns g" and lt: "r' * columns g + c' < Suc n"
  show "best_at g r' c' (entry A r' c')"
  proof (cases "r' * columns g + c' = n")
    case True
    with cell_index_unique [OF b(2), of r' n]
    have "r' = n div columns g \<and> c' = n mod columns g" by blast
    moreover from idx cell_index_unique [OF c, of r n]
    have "r = n div columns g \<and> c = n mod columns g" by blast
    ultimately have "r' = r \<and> c' = c" by simp
    with here show ?thesis by simp
  next
    case False
    with lt have "r' * columns g + c' < n" by simp
    with filled_seen [OF inv b] show ?thesis by simp
  qed
next
  fix r' c'
  assume b: "r' < rows g" "c' < columns g" and ge: "Suc n \<le> r' * columns g + c'"
    and p: "0 < r' * columns g + c'"
  show "entry A r' c' = None"
    by (rule filled_pending [OF inv b Suc_leD [OF ge] p])
qed

lemma fill_cell_step:
  assumes inv: "filled g n A" and n: "n < rows g * columns g"
  shows "\<exists>A'. fill_cell g (n div columns g) (n mod columns g) A = Inr A' \<and> filled g (Suc n) A'"
proof -
  define r where "r = n div columns g"
  define c where "c = n mod columns g"
  from cell_index [OF n] have r: "r < rows g" and c: "c < columns g"
    and idx: "r * columns g + c = n"
    by (simp_all add: r_def c_def)
  from r c have nonempty: "0 < rows g" "0 < columns g" by auto
  from inv have dims: "table_dims g A" and origin: "entry A 0 0 = Some (start g)"
    by (simp_all add: filled_def)
  note seen = filled_seen [OF inv]
  note pending = filled_pending [OF inv]
  have here: "r' * columns g + c' = n \<longleftrightarrow> r' = r \<and> c' = c" if "c' < columns g" for r' c'
    unfolding r_def c_def using that by (rule cell_index_unique)
  have zero: "r = 0 \<and> c = 0" if "n = 0"
    using that by (simp add: r_def c_def)
  have at_origin: "best_at g r c (entry A r c)" if "n = 0"
    using zero [OF that] origin best_at_origin [OF nonempty] by simp
  have pos: "0 < r + c" if "0 < n"
    using that idx by (cases "r + c") auto
  have none: "entry A r c = None" if "0 < n"
    using pending [OF r c] idx that by simp
  have get: "get g r c = Inr (cells g r c)"
    using r c by (simp add: get_def)
  show ?thesis
  proof (cases "cells g r c = CELL_BUILDING")
    case True
    have "best_at g r c (entry A r c)"
    proof (cases "n = 0")
      case True
      then show ?thesis by (rule at_origin)
    next
      case False
      then have "0 < n" by simp
      with best_at_building [OF True pos] none show ?thesis by simp
    qed
    with inv r c idx have "filled g (Suc n) A" by (rule filled_Suc_same)
    moreover have "fill_cell g r c A = Inr A"
      using True by (simp add: fill_cell_def get)
    ultimately show ?thesis by (simp add: r_def c_def)
  next
    case False
    define abv where "abv = south_of g r (entry A (r - 1) c)"
    define lft where "lft = east_of g c (entry A r (c - 1))"
    define A' where "A' = store_cell A r c abv lft"
    have up: "best_at g (r - 1) c (entry A (r - 1) c)" if "0 < r"
    proof -
      from that have "(r - 1) * columns g + c < n"
        using cell_index_above [of n "columns g"] nonempty by (simp add: r_def c_def)
      with seen [of "r - 1" c] r c show ?thesis by simp
    qed
    have lf: "best_at g r (c - 1) (entry A r (c - 1))" if "0 < c"
    proof -
      from that have "r * columns g + (c - 1) < n"
        using cell_index_left [of n "columns g"] by (simp add: r_def c_def)
      with seen [of r "c - 1"] r c show ?thesis by simp
    qed
    have run: "fill_cell g r c A = Inr A'"
      using False from_above_eq [OF up r c False] from_left_eq [OF lf r c False]
      by (simp add: fill_cell_def get A'_def abv_def lft_def)
    have dims': "table_dims g A'"
      unfolding A'_def using dims by (rule table_dims_store_cell)
    have ent: "entry A' r' c' =
        (if r' = r \<and> c' = c
         then (case preferred abv lft of None \<Rightarrow> entry A r c | Some v \<Rightarrow> Some v)
         else entry A r' c')" for r' c'
      unfolding A'_def by (rule entry_store_cell [OF dims r c])
    have other: "entry A' r' c' = entry A r' c'" if "\<not> (r' = r \<and> c' = c)" for r' c'
      using that by (auto simp: ent)
    have none0: "preferred abv lft = None" if "n = 0"
      using zero [OF that] by (simp add: abv_def lft_def south_of_def east_of_def preferred_def)
    have here': "best_at g r c (entry A' r c)"
    proof (cases "n = 0")
      case True
      with none0 at_origin ent show ?thesis by simp
    next
      case False
      then have "0 < n" by simp
      have "best_at g r c (preferred abv lft)"
        unfolding abv_def lft_def
        using r c \<open>cells g r c \<noteq> CELL_BUILDING\<close> pos [OF \<open>0 < n\<close>] up lf
        by (rule best_at_preferred)
      with none [OF \<open>0 < n\<close>] ent show ?thesis by (cases "preferred abv lft") simp_all
    qed
    have origin': "entry A' 0 0 = Some (start g)"
    proof (cases "n = 0")
      case True
      with none0 origin ent zero show ?thesis by simp
    next
      case False
      with idx have "\<not> (0 = r \<and> 0 = c)" by auto
      from other [OF this] origin show ?thesis by simp
    qed
    have "filled g (Suc n) A'"
    proof (rule filledI)
      show "table_dims g A'" by (rule dims')
      show "entry A' 0 0 = Some (start g)" by (rule origin')
    next
      fix r' c'
      assume b: "r' < rows g" "c' < columns g" and lt: "r' * columns g + c' < Suc n"
      show "best_at g r' c' (entry A' r' c')"
      proof (cases "r' * columns g + c' = n")
        case True
        with here [OF b(2)] here' show ?thesis by simp
      next
        case False
        with lt have "r' * columns g + c' < n" by simp
        moreover from False here [OF b(2)] have "\<not> (r' = r \<and> c' = c)" by simp
        ultimately show ?thesis using seen [OF b] other [of r' c'] by simp
      qed
    next
      fix r' c'
      assume b: "r' < rows g" "c' < columns g" and ge: "Suc n \<le> r' * columns g + c'"
        and p: "0 < r' * columns g + c'"
      from ge here [OF b(2), of r'] have "\<not> (r' = r \<and> c' = c)" by auto
      from other [OF this] pending [OF b Suc_leD [OF ge] p]
      show "entry A' r' c' = None" by simp
    qed
    with run have "fill_cell g r c A = Inr A' \<and> filled g (Suc n) A'" by simp
    then show ?thesis unfolding r_def c_def by (rule exI)
  qed
qed

lemma nested_upto_rule:
  assumes "P 0 s"
    and "\<And>n s. n < N \<Longrightarrow> P n s \<Longrightarrow> \<exists>s'. body (n div C) (n mod C) s = Inr s' \<and> P (Suc n) s'"
    and "m \<le> N"
  shows "\<exists>s'. nested_upto body C m s = Inr s' \<and> P m s'"
  using assms(3)
proof (induction m)
  case 0
  with assms(1) show ?case by simp
next
  case (Suc m)
  then obtain s1 where s1: "nested_upto body C m s = Inr s1" "P m s1" by auto
  from Suc.prems have "m < N" by simp
  from assms(2) [OF this s1(2)] s1(1) show ?case by simp
qed

lemma init_table_filled:
  assumes "0 < rows g" and "0 < columns g"
  shows "\<exists>A0. init_table g = Inr A0 \<and> filled g 0 A0"
proof -
  define E :: table where "E = replicate (rows g) (replicate (columns g) None)"
  define A0 where "A0 = assign E 0 0 (Some (start g))"
  have dimsE: "table_dims g E" by (simp add: E_def table_dims_def)
  have entE: "entry E r c = None" if "r < rows g" "c < columns g" for r c
    using that by (simp add: E_def entry_def)
  have ent: "entry A0 r c = (if r = 0 \<and> c = 0 then Some (start g) else entry E r c)" for r c
    unfolding A0_def by (rule entry_assign [OF dimsE assms])
  have "filled g 0 A0"
  proof (rule filledI)
    show "table_dims g A0" unfolding A0_def using dimsE by (rule table_dims_assign)
    show "entry A0 0 0 = Some (start g)" by (simp add: ent)
  next
    fix r c
    assume "r * columns g + c < 0"
    then show "best_at g r c (entry A0 r c)" by simp
  next
    fix r c
    assume b: "r < rows g" "c < columns g" and "0 < r * columns g + c"
    then have "\<not> (r = 0 \<and> c = 0)" by auto
    with entE [OF b] show "entry A0 r c = None" by (simp add: ent)
  qed
  moreover have "init_table g = Inr A0"
    using assms by (simp add: init_table_def new_path_start E_def A0_def ent [unfolded A0_def E_def])
  ultimately show ?thesis by blast
qed

lemma table_after_filled:
  assumes "0 < rows g" and "0 < columns g" and "n \<le> rows g * columns g"
  shows "\<exists>A. table_after g n = Inr A \<and> filled g n A"
proof -
  from init_table_filled [OF assms(1,2)] obtain A0 where
    A0: "init_table g = Inr A0" "filled g 0 A0" by blast
  have "\<exists>A. nested_upto (fill_cell g) (columns g) n A0 = Inr A \<and> filled g n A"
    using A0(2) fill_cell_step assms(3) by (rule nested_upto_rule)
  with A0(1) show ?thesis by (simp add: table_after_def)
qed

lemma fill_table_after:
  "init_table g = Inr A0 \<Longrightarrow> fill_table g A0 = table_after g (rows g * columns g)"
  by (simp add: fill_table_def table_after_def nested_loops)

subsection \<open>The scan, and the result of the dynamic-programming solver\<close>

lemma scan_cell_step:
  assumes inv: "scanned g A n best" and n: "n < rows g * columns g"
  shows "\<exists>best'. scan_cell A (n div columns g) (n mod columns g) best = Inr best' \<and>
           scanned g A (Suc n) best'"
proof -
  define r where "r = n div columns g"
  define c where "c = n mod columns g"
  from cell_index [OF n] have r: "r < rows g" and c: "c < columns g"
    and idx: "r * columns g + c = n"
    by (simp_all add: r_def c_def)
  from inv obtain b where best: "fst best < rows g" "snd best < columns g"
    and b: "entry A (fst best) (snd best) = Some b"
    and le: "\<And>r' c' p. r' < rows g \<Longrightarrow> c' < columns g \<Longrightarrow> r' * columns g + c' < n \<Longrightarrow>
               entry A r' c' = Some p \<Longrightarrow> total_cranes p \<le> total_cranes b"
    unfolding scanned_def by blast
  have here: "r' = r \<and> c' = c" if "c' < columns g" "r' * columns g + c' = n" for r' c'
    using cell_index_unique [OF that(1), of r' n] that(2) by (simp add: r_def c_def)
  define best' where "best' =
    (case entry A r c of
       None \<Rightarrow> best
     | Some p \<Rightarrow> if total_cranes p > total_cranes b then (r, c) else best)"
  have run: "scan_cell A r c best = Inr best'"
    by (simp add: scan_cell_def best'_def b split: option.splits)
  have "scanned g A (Suc n) best'"
  proof (cases "entry A r c")
    case None
    then have eq: "best' = best" by (simp add: best'_def)
    have "total_cranes p \<le> total_cranes b"
      if "r' < rows g" "c' < columns g" "r' * columns g + c' < Suc n" "entry A r' c' = Some p"
      for r' c' p
    proof (cases "r' * columns g + c' = n")
      case True
      from here [OF that(2) True] None that(4) show ?thesis by simp
    next
      case False
      with that(3) have "r' * columns g + c' < n" by simp
      from le [OF that(1,2) this that(4)] show ?thesis .
    qed
    with best b show ?thesis unfolding scanned_def eq by blast
  next
    case (Some p)
    show ?thesis
    proof (cases "total_cranes p > total_cranes b")
      case True
      with Some have eq: "best' = (r, c)" by (simp add: best'_def)
      have "total_cranes q \<le> total_cranes p"
        if "r' < rows g" "c' < columns g" "r' * columns g + c' < Suc n" "entry A r' c' = Some q"
        for r' c' q
      proof (cases "r' * columns g + c' = n")
        case True
        from here [OF that(2) True] Some that(4) show ?thesis by simp
      next
        case False
        with that(3) have "r' * columns g + c' < n" by simp
        from le [OF that(1,2) this that(4)] True show ?thesis by simp
      qed
      with r c Some show ?thesis unfolding scanned_def eq by auto
    next
      case False
      with Some have eq: "best' = best" by (simp add: best'_def)
      have "total_cranes q \<le> total_cranes b"
        if "r' < rows g" "c' < columns g" "r' * columns g + c' < Suc n" "entry A r' c' = Some q"
        for r' c' q
      proof (cases "r' * columns g + c' = n")
        case True
        from here [OF that(2) True] Some that(4) False show ?thesis by simp
      next
        case False
        with that(3) have "r' * columns g + c' < n" by simp
        from le [OF that(1,2) this that(4)] show ?thesis .
      qed
      with best b show ?thesis unfolding scanned_def eq by blast
    qed
  qed
  with run show ?thesis unfolding r_def c_def by blast
qed

lemma scan_table_scanned:
  assumes "0 < rows g" and "0 < columns g" and "entry A 0 0 = Some b"
  shows "\<exists>best. scan_table g A (0, 0) = Inr best \<and> scanned g A (rows g * columns g) best"
proof -
  have init: "scanned g A 0 (0, 0)"
    using assms by (simp add: scanned_def)
  have "\<exists>best. nested_upto (scan_cell A) (columns g) (rows g * columns g) (0, 0) = Inr best \<and>
      scanned g A (rows g * columns g) best"
    by (rule nested_upto_rule [OF init scan_cell_step order_refl])
  then show ?thesis by (simp add: scan_table_def nested_loops)
qed

lemma filled_scanned_optimal:
  assumes f: "filled g (rows g * columns g) A"
    and s: "scanned g A (rows g * columns g) best"
    and b: "entry A (fst best) (snd best) = Some p"
  shows "optimal g p"
proof -
  have idx: "r * columns g + c < rows g * columns g" if "r < rows g" "c < columns g" for r c
  proof -
    from that have "r * columns g + c < r * columns g + columns g" by simp
    also have "\<dots> = Suc r * columns g" by simp
    also from that(1) have "\<dots> \<le> rows g * columns g"
      by (intro mult_le_mono1) simp
    finally show ?thesis .
  qed
  from s b have best: "fst best < rows g" "snd best < columns g"
    and le: "\<And>r c q. r < rows g \<Longrightarrow> c < columns g \<Longrightarrow> entry A r c = Some q \<Longrightarrow>
               total_cranes q \<le> total_cranes p"
    using idx unfolding scanned_def by auto
  from filled_seen [OF f best idx [OF best]] b have "genuine g p"
    by (simp add: best_at_def ends_at_def)
  moreover have "total_cranes q \<le> total_cranes p" if q: "genuine g q" for q
  proof -
    define r where "r = final_row q"
    define c where "c = final_column q"
    from genuine_in_range [OF q] have rc: "r < rows g" "c < columns g"
      by (simp_all add: r_def c_def)
    from q have e: "ends_at g r c q" by (simp add: ends_at_def r_def c_def)
    from filled_seen [OF f rc idx [OF rc]] e obtain p' where
      p': "entry A r c = Some p'" "total_cranes q \<le> total_cranes p'"
      by (cases "entry A r c") (auto simp: best_at_def)
    from le [OF rc p'(1)] p'(2) show ?thesis by simp
  qed
  ultimately show ?thesis by (simp add: optimal_def)
qed

lemma dyn_prog_optimal:
  assumes "0 < rows g" and "0 < columns g"
  shows "\<exists>p. crane_unloading_dyn_prog g = Inr p \<and> optimal g p"
proof -
  from init_table_filled [OF assms] obtain A0 where A0: "init_table g = Inr A0" by blast
  from table_after_filled [OF assms order_refl] obtain A where
    A: "table_after g (rows g * columns g) = Inr A" "filled g (rows g * columns g) A" by blast
  from A(2) have origin: "entry A 0 0 = Some (start g)" by (simp add: filled_def)
  from scan_table_scanned [OF assms origin] obtain best where
    best: "scan_table g A (0, 0) = Inr best" "scanned g A (rows g * columns g) best" by blast
  from best(2) obtain p where p: "entry A (fst best) (snd best) = Some p"
    unfolding scanned_def by blast
  have "crane_unloading_dyn_prog g = Inr p"
    using assms A0 fill_table_after [OF A0] A(1) origin best(1) p
    by (simp add: crane_unloading_dyn_prog_def)
  with filled_scanned_optimal [OF A(2) best(2) p] show ?thesis by blast
qed

subsection \<open>Valid paths stay on the grid\<close>

lemma cells_from_nonempty: "cells_from rc ds \<noteq> []"
  by (cases ds) auto

lemma cells_from_snoc:
  "cells_from rc (ds @ [d]) = cells_from rc ds @ [next_cell (last (cells_from rc ds)) d]"
  by (induction ds arbitrary: rc) (auto simp: cells_from_nonempty)

lemma last_cells_from:
  "last (cells_from (0, 0) ds) =
     (length (filter (\<lambda>d. d = STEP_DIRECTION_SOUTH) ds),
      length (filter (\<lambda>d. d = STEP_DIRECTION_EAST) ds))"
proof (induction ds rule: rev_induct)
  case Nil
  show ?case by simp
next
  case (snoc d ds)
  then show ?case
    by (cases d) (simp_all add: cells_from_snoc next_cell_def)
qed

lemma last_visited: "last (visited (path_steps p)) = (final_row p, final_column p)"
  by (simp add: visited_def last_cells_from final_row_def final_column_def)

lemma one_apart_snoc:
  "xs \<noteq> [] \<Longrightarrow> one_apart (xs @ [y]) \<longleftrightarrow>
     one_apart xs \<and> (y = (fst (last xs) + 1, snd (last xs)) \<or> y = (fst (last xs), snd (last xs) + 1))"
  by (induction xs rule: one_apart.induct) auto

lemma one_apart_cells_from: "one_apart (cells_from rc ds)"
proof (induction ds rule: rev_induct)
  case Nil
  show ?case by simp
next
  case (snoc d ds)
  then show ?case
    by (cases d) (auto simp: cells_from_snoc one_apart_snoc cells_from_nonempty next_cell_def)
qed

lemma genuine_on_grid:
  assumes "genuine g p" and "cells g 0 0 \<noteq> CELL_BUILDING"
  shows "on_grid g (path_steps p)"
proof -
  have "list_all (free_cell g) (visited ds)" if "walk g ds = Inr q" for ds q
    using that
  proof (induction ds arbitrary: q rule: rev_induct)
    case Nil
    then have "0 < rows g \<and> 0 < columns g"
      by (auto simp: walk_Nil dest: new_path_Inr)
    with assms(2) show ?case by (simp add: visited_def free_cell_def)
  next
    case (snoc d ds)
    from snoc.prems obtain p' where p': "walk g ds = Inr p'" and v: "is_step_valid g p' d"
      by (auto simp: walk_snoc add_step_def split: sum.splits if_splits)
    from walk_steps [OF p'] have "last (visited ds) = (final_row p', final_column p')"
      using last_visited [of p'] by simp
    with v have "free_cell g (next_cell (last (visited ds)) d)"
      by (cases d)
         (simp_all add: is_step_valid_def free_cell_def next_cell_def dest_row_def dest_column_def)
    with snoc.IH [OF p'] show ?case
      by (simp add: visited_def cells_from_snoc)
  qed
  with assms(1) show ?thesis
    by (simp add: on_grid_def genuine_def visited_def one_apart_cells_from)
qed

subsection \<open>The table during the run\<close>

lemma table_after_Suc:
  "table_after g (Suc n) =
     (case table_after g n of
        Inl e \<Rightarrow> Inl e
      | Inr A \<Rightarrow> fill_cell g (n div columns g) (n mod columns g) A)"
  by (simp add: table_after_def split: sum.splits)

lemma table_after_dims:
  assumes "table_after g n = Inr A" and "n \<le> rows g * columns g"
    and "0 < rows g" and "0 < columns g"
  shows "filled g n A"
  using table_after_filled [OF assms(3,4,2)] assms(1) by simp

lemma optimal_on_grid:
  "optimal g p \<Longrightarrow> cells g 0 0 \<noteq> CELL_BUILDING \<Longrightarrow> on_grid g (path_steps p)"
  by (simp add: optimal_def genuine_on_grid)

lemma filled_entry_genuine:
  assumes f: "filled g n A" and r: "r < rows g" and c: "c < columns g"
    and p: "entry A r c = Some p"
  shows "ends_at g r c p"
proof (cases "r * columns g + c < n")
  case True
  from filled_seen [OF f r c True] p show ?thesis by (simp add: best_at_def)
next
  case False
  then have ge: "n \<le> r * columns g + c" by simp
  have "\<not> 0 < r * columns g + c"
  proof
    assume "0 < r * columns g + c"
    from filled_pending [OF f r c ge this] p show False by simp
  qed
  with c have "r = 0" "c = 0" by auto
  moreover from f have "entry A 0 0 = Some (start g)" by (simp add: filled_def)
  moreover from r c have "genuine g (start g)" by (intro genuine_start) auto
  ultimately have "r = 0" "c = 0" "p = start g" "genuine g (start g)"
    using p by simp_all
  then show ?thesis by (simp add: ends_at_def)
qed

text \<open>Once the loop has passed a cell, the entry of that cell stays as it is.\<close>

lemma fill_cell_elsewhere:
  assumes dims: "table_dims g A" and r: "r < rows g" and c: "c < columns g"
    and run: "fill_cell g r c A = Inr A'" and other: "\<not> (r' = r \<and> c' = c)"
  shows "entry A' r' c' = entry A r' c'"
proof (cases "cells g r c = CELL_BUILDING")
  case True
  with run r c show ?thesis by (simp add: fill_cell_def get_def)
next
  case False
  with run r c obtain abv lft where "A' = store_cell A r c abv lft"
    by (auto simp: fill_cell_def get_def split: sum.splits)
  with other show ?thesis
    by (auto simp: entry_store_cell [OF dims r c])
qed

lemma table_after_stable:
  assumes nonempty: "0 < rows g" "0 < columns g"
    and r: "r < rows g" and c: "c < columns g" and seen: "r * columns g + c < n"
    and nm: "n \<le> m" and m: "m \<le> rows g * columns g"
    and A: "table_after g n = Inr A" and B: "table_after g m = Inr B"
  shows "entry B r c = entry A r c"
  using nm m B
proof (induction m arbitrary: B rule: dec_induct)
  case base
  with A show ?case by simp
next
  case (step k)
  from step.prems(1) have k: "k < rows g * columns g" by simp
  from table_after_filled [OF nonempty less_imp_le [OF k]] obtain Ak where
    Ak: "table_after g k = Inr Ak" "filled g k Ak" by blast
  from step.IH [OF less_imp_le [OF k] Ak(1)] have IH: "entry Ak r c = entry A r c" .
  from step.prems(2) Ak(1)
  have run: "fill_cell g (k div columns g) (k mod columns g) Ak = Inr B"
    by (simp add: table_after_Suc)
  have "\<not> (r = k div columns g \<and> c = k mod columns g)"
  proof
    assume "r = k div columns g \<and> c = k mod columns g"
    with cell_index_unique [OF c, of r k] have "r * columns g + c = k" by simp
    with seen step.hyps(1) show False by simp
  qed
  from fill_cell_elsewhere [OF _ cell_index(1,2) [OF k] run this] Ak(2) IH
  show ?case by (simp add: filled_def)
qed

subsection \<open>A longer loop over the bit patterns\<close>

text \<open>
  Bits beyond the pattern's length do not matter, so a longer run of the loop over
  \<open>bits\<close> only replays patterns it has seen, and none of them replaces the best path.
\<close>

lemma bit_dir_mod:
  assumes "k < steps"
  shows "bit_dir (bits mod 2 ^ steps) k = bit_dir bits k"
proof -
  have "bit (take_bit steps bits) k \<longleftrightarrow> bit bits k"
    using assms by (simp add: bit_take_bit_iff)
  then have "odd (bits mod 2 ^ steps div 2 ^ k) \<longleftrightarrow> odd (bits div 2 ^ k)"
    by (simp add: bit_iff_odd take_bit_eq_mod)
  then have "(bits mod 2 ^ steps div 2 ^ k) mod 2 = 1 \<longleftrightarrow> (bits div 2 ^ k) mod 2 = 1"
    by (simp add: odd_iff_mod_2_eq_one)
  then show ?thesis unfolding bit_dir_def by simp
qed

lemma bit_dirs_mod: "bit_dirs steps (bits mod 2 ^ steps) = bit_dirs steps bits"
  by (simp add: bit_dirs_def bit_dir_mod)

lemma full_replay_mod: "full_replay g steps (bits mod 2 ^ steps) = full_replay g steps bits"
  by (simp add: full_replay_def bit_dirs_mod)

lemma for_each_fixed:
  "(\<And>i. i \<in> set xs \<Longrightarrow> body i s = Inr s) \<Longrightarrow> for_each xs body s = Inr s"
  by (induction xs) auto

lemma more_bits_same_best:
  assumes "0 < rows g" and "0 < columns g" and "2 ^ steps \<le> n"
  shows "for_each [0..<n] (update_best g steps) best = all_bits g steps best"
proof -
  define b where "b = foldl better best (valid_candidates_of g steps)"
  have first: "for_each [0..<2 ^ steps] (update_best g steps) best = Inr b"
    using all_bits_eq [OF assms(1,2), of steps best] by (simp add: all_bits_def b_def)
  have "update_best g steps bits b = Inr b" for bits
  proof (cases "full_replay g steps bits")
    case None
    then show ?thesis by (simp add: update_best_eq [OF assms(1,2)])
  next
    case (Some c)
    then have "full_replay g steps (bits mod 2 ^ steps) = Some c"
      by (simp add: full_replay_mod)
    moreover have "bits mod 2 ^ steps \<in> set [0..<2 ^ steps]" by simp
    ultimately have "c \<in> set (valid_candidates_of g steps)"
      unfolding valid_candidates_of_def set_map_filter by blast
    then have "total_cranes c \<le> total_cranes b"
      unfolding b_def by (intro foldl_better_ge) simp
    with Some show ?thesis
      by (simp add: update_best_eq [OF assms(1,2)] better_def)
  qed
  then have rest: "for_each [2 ^ steps..<n] (update_best g steps) b = Inr b"
    by (intro for_each_fixed)
  from assms(3) have "[0..<n] = [0..<2 ^ steps] @ [2 ^ steps..<n]"
    by (metis le_add_diff_inverse upt_add_eq_append zero_le)
  then show ?thesis
    by (simp add: for_each_append first rest all_bits_def)
qed

section \<open>Main results\<close>

subsection \<open>The one-cell grid\<close>

text \<open>
  C6: on a grid of one row and one column whose cell is not a building, both solvers
  return the zero-length path, with a crane count of 1 if the cell holds a crane and 0
  otherwise.
\<close>

theorem one_by_one_grid:
  assumes "rows g = 1" and "columns g = 1" and "cells g 0 0 \<noteq> CELL_BUILDING"
  shows "crane_unloading_exhaustive g =
           Inr \<lparr>path_steps = [], path_cranes = (if cells g 0 0 = CELL_CRANE then 1 else 0)\<rparr> \<and>
         crane_unloading_dyn_prog g =
           Inr \<lparr>path_steps = [], path_cranes = (if cells g 0 0 = CELL_CRANE then 1 else 0)\<rparr>"
proof
  show "crane_unloading_exhaustive g =
           Inr \<lparr>path_steps = [], path_cranes = (if cells g 0 0 = CELL_CRANE then 1 else 0)\<rparr>"
    using assms by (simp add: crane_unloading_exhaustive_def new_path_def get_def)
  have init: "init_table g = Inr [[Some \<lparr>path_steps = [], path_cranes = (if cells g 0 0 = CELL_CRANE then 1 else 0)\<rparr>]]"
    using assms by (simp add: init_table_def new_path_def get_def assign_def entry_def)
  have fill: "fill_table g [[Some p]] = Inr [[Some p]]" for p
    using assms
    by (simp add: fill_table_def fill_cell_def get_def from_above_def from_left_def
        store_cell_def)
  have scan: "scan_table g [[Some p]] (0, 0) = Inr (0, 0)" for p
    using assms by (simp add: scan_table_def scan_cell_def entry_def)
  show "crane_unloading_dyn_prog g =
           Inr \<lparr>path_steps = [], path_cranes = (if cells g 0 0 = CELL_CRANE then 1 else 0)\<rparr>"
    using assms by (simp add: crane_unloading_dyn_prog_def init fill scan entry_def)
qed

theorem one_by_one_grid_witness:
  "crane_unloading_exhaustive single_crane = Inr \<lparr>path_steps = [], path_cranes = 1\<rparr> \<and>
   crane_unloading_dyn_prog single_crane = Inr \<lparr>path_steps = [], path_cranes = 1\<rparr>"
  using one_by_one_grid [of single_crane] by (simp add: single_crane_def)

subsection \<open>The two solvers agree\<close>

text \<open>
  C1: on every non-empty grid whose start cell is not a building and with
  \<open>rows + columns - 2 < 64\<close>, both solvers return a path, and the two paths have the
  same crane count. Each solver returns a path that no valid path beats
  (\<open>exhaustive_optimal\<close>, \<open>dyn_prog_optimal\<close>).
\<close>

theorem solvers_agree:
  assumes "0 < rows g" and "0 < columns g" and "cells g 0 0 \<noteq> CELL_BUILDING"
    and "rows g + columns g - 2 < 64"
  shows "\<exists>p q. crane_unloading_exhaustive g = Inr p \<and> crane_unloading_dyn_prog g = Inr q \<and>
           total_cranes p = total_cranes q"
proof -
  from exhaustive_optimal [OF assms(1,2,4)] obtain p where
    p: "crane_unloading_exhaustive g = Inr p" "optimal g p" by blast
  from dyn_prog_optimal [OF assms(1,2)] obtain q where
    q: "crane_unloading_dyn_prog g = Inr q" "optimal g q" by blast
  from p(2) q(2) have "total_cranes p = total_cranes q"
    by (auto simp: optimal_def intro: le_antisym)
  with p(1) q(1) show ?thesis by blast
qed

theorem solvers_agree_witness:
  "\<exists>p q. crane_unloading_exhaustive blocked_yard = Inr p \<and>
     crane_unloading_dyn_prog blocked_yard = Inr q \<and> total_cranes p = total_cranes q"
  by (rule solvers_agree) (simp_all add: blocked_yard_def)

subsection \<open>Ties between the two extensions\<close>

text \<open>
  On the open two-by-two grid both extensions reach the last cell \<open>(1,1)\<close> with no
  crane. The table then holds the extension from the left (south, then east), not the
  one from above: the comparison in the source is strict, and its \<^verbatim>\<open>else\<close> branch
  stores \<^verbatim>\<open>from_left\<close>.
\<close>

theorem tie_prefers_above_counterexample:
  "table_after open_yard 3 = Inr open_yard_table \<and>
   from_above open_yard open_yard_table 1 1 = Inr (Some east_south) \<and>
   from_left open_yard open_yard_table 1 1 = Inr (Some south_east) \<and>
   total_cranes east_south = total_cranes south_east \<and>
   table_after open_yard 4 = Inr (assign open_yard_table 1 1 (Some south_east)) \<and>
   entry (assign open_yard_table 1 1 (Some south_east)) 1 1 \<noteq> Some east_south"
  by code_simp

text \<open>
  C2, as the code has it: when both \<^verbatim>\<open>from_above\<close> and \<^verbatim>\<open>from_left\<close> exist for a
  cell \<open>(r,c)\<close> that is not a building, the iteration for that cell stores
  \<^verbatim>\<open>from_above\<close> in \<open>A[r][c]\<close> if its crane count is strictly greater, and
  \<^verbatim>\<open>from_left\<close> otherwise; so on equal crane counts it stores \<^verbatim>\<open>from_left\<close>, and
  \<^verbatim>\<open>from_above\<close> is stored only when it has strictly more cranes. The table the loop
  ends with still holds that entry.
\<close>

theorem from_left_unless_strictly_better:
  assumes "r < rows g" and "c < columns g"
    and "table_after g (r * columns g + c) = Inr A"
    and "cells g r c \<noteq> CELL_BUILDING"
    and "from_above g A r c = Inr (Some pa)"
    and "from_left g A r c = Inr (Some pl)"
  shows "\<exists>A' A0 F.
           table_after g (Suc (r * columns g + c)) = Inr A' \<and>
           entry A' r c = Some (if total_cranes pa > total_cranes pl then pa else pl) \<and>
           init_table g = Inr A0 \<and> fill_table g A0 = Inr F \<and>
           entry F r c = Some (if total_cranes pa > total_cranes pl then pa else pl) \<and>
           (total_cranes pa = total_cranes pl \<longrightarrow> entry F r c = Some pl) \<and>
           (entry F r c = Some pa \<longrightarrow> total_cranes pa > total_cranes pl \<or> pa = pl)"
proof -
  have idx: "Suc (r * columns g + c) \<le> rows g * columns g"
  proof -
    from assms(2) have "Suc (r * columns g + c) \<le> Suc r * columns g" by simp
    also from assms(1) have "\<dots> \<le> rows g * columns g"
      by (intro mult_le_mono1) simp
    finally show ?thesis .
  qed
  from assms(1,2) have nonempty: "0 < rows g" "0 < columns g" by auto
  from table_after_dims [OF assms(3) Suc_leD [OF idx] nonempty]
  have dims: "table_dims g A" by (simp add: filled_def)
  from assms(2) have dm: "(r * columns g + c) div columns g = r"
    "(r * columns g + c) mod columns g = c" by simp_all
  define A' where "A' = store_cell A r c (Some pa) (Some pl)"
  define stored where "stored = (if total_cranes pa > total_cranes pl then pa else pl)"
  have "fill_cell g r c A = Inr A'"
    using assms by (simp add: fill_cell_def get_def A'_def)
  then have A': "table_after g (Suc (r * columns g + c)) = Inr A'"
    unfolding table_after_Suc assms(3) dm by simp
  have here: "entry A' r c = Some stored"
    by (simp add: A'_def stored_def entry_store_cell [OF dims assms(1,2)] preferred_def)
  from init_table_filled [OF nonempty] obtain A0 where A0: "init_table g = Inr A0" by blast
  from table_after_filled [OF nonempty order_refl] obtain F where
    F: "table_after g (rows g * columns g) = Inr F" by blast
  from table_after_stable [OF nonempty assms(1,2) _ idx order_refl A' F] here
  have final: "entry F r c = Some stored" by simp
  have tie: "total_cranes pa = total_cranes pl \<longrightarrow> entry F r c = Some pl"
    using final by (simp add: stored_def)
  have only: "entry F r c = Some pa \<longrightarrow> total_cranes pa > total_cranes pl \<or> pa = pl"
    using final by (auto simp: stored_def split: if_splits)
  from A' here A0 F fill_table_after [OF A0] final tie only
  show ?thesis unfolding stored_def by auto
qed

theorem from_left_unless_strictly_better_witness:
  "(\<exists>A' A0 F.
      table_after open_yard (Suc (1 * columns open_yard + 1)) = Inr A' \<and>
      entry A' 1 1 = Some south_east \<and>
      init_table open_yard = Inr A0 \<and> fill_table open_yard A0 = Inr F \<and>
      entry F 1 1 = Some south_east) \<and>
   (\<exists>A' A0 F.
      table_after crane_yard (Suc (1 * columns crane_yard + 1)) = Inr A' \<and>
      entry A' 1 1 = Some east_south_crane \<and>
      init_table crane_yard = Inr A0 \<and> fill_table crane_yard A0 = Inr F \<and>
      entry F 1 1 = Some east_south_crane)"
proof
  have tie: "(if total_cranes east_south > total_cranes south_east
              then east_south else south_east) = south_east"
    by code_simp
  have "1 < rows open_yard" "1 < columns open_yard" "cells open_yard 1 1 \<noteq> CELL_BUILDING"
    by (simp_all add: open_yard_def)
  moreover have "table_after open_yard (1 * columns open_yard + 1) = Inr open_yard_table"
    by code_simp
  moreover have "from_above open_yard open_yard_table 1 1 = Inr (Some east_south)"
    by code_simp
  moreover have "from_left open_yard open_yard_table 1 1 = Inr (Some south_east)"
    by code_simp
  ultimately show "\<exists>A' A0 F.
      table_after open_yard (Suc (1 * columns open_yard + 1)) = Inr A' \<and>
      entry A' 1 1 = Some south_east \<and>
      init_table open_yard = Inr A0 \<and> fill_table open_yard A0 = Inr F \<and>
      entry F 1 1 = Some south_east"
    using from_left_unless_strictly_better
      [of 1 open_yard 1 open_yard_table east_south south_east]
    unfolding tie by blast
next
  have more: "(if total_cranes east_south_crane > total_cranes south_east
               then east_south_crane else south_east) = east_south_crane"
    by code_simp
  have "1 < rows crane_yard" "1 < columns crane_yard" "cells crane_yard 1 1 \<noteq> CELL_BUILDING"
    by (simp_all add: crane_yard_def)
  moreover have "table_after crane_yard (1 * columns crane_yard + 1) = Inr crane_yard_table"
    by code_simp
  moreover have "from_above crane_yard crane_yard_table 1 1 = Inr (Some east_south_crane)"
    by code_simp
  moreover have "from_left crane_yard crane_yard_table 1 1 = Inr (Some south_east)"
    by code_simp
  ultimately show "\<exists>A' A0 F.
      table_after crane_yard (Suc (1 * columns crane_yard + 1)) = Inr A' \<and>
      entry A' 1 1 = Some east_south_crane \<and>
      init_table crane_yard = Inr A0 \<and> fill_table crane_yard A0 = Inr F \<and>
      entry F 1 1 = Some east_south_crane"
    using from_left_unless_strictly_better
      [of 1 crane_yard 1 crane_yard_table east_south_crane south_east]
    unfolding more by blast
qed

subsection \<open>Replaying a bit pattern\<close>

text \<open>
  On the blocked two-by-two grid the pattern \<open>bits = 1\<close> of length 2 encodes east, then
  south. The first move is invalid, since a building lies east of the start; yet the
  candidate the loop ends with holds the second move, south: the replay went on
  extending the candidate after its first invalid step.
\<close>

theorem replay_stops_counterexample:
  "bit_dirs 2 1 = [STEP_DIRECTION_EAST, STEP_DIRECTION_SOUTH] \<and>
   \<not> is_step_valid blocked_yard (start blocked_yard) STEP_DIRECTION_EAST \<and>
   candidate blocked_yard 2 1 =
     Inr (\<lparr>path_steps = [STEP_DIRECTION_SOUTH], path_cranes = 0\<rparr>, False)"
  by code_simp

text \<open>
  C3, as the code has it: for every bit pattern of length \<open>L\<close> the candidate is built by
  attempting each bit's direction in order (\<open>attempts\<close>); a step whose direction is
  invalid is not appended and marks the whole candidate invalid, for good: the flag
  ends up set exactly when the walk along the whole pattern succeeds, and the candidate
  is then that walk's path. The steps after an invalid one are attempted all the same,
  and appended when valid.
\<close>

theorem replay_attempts_every_step:
  assumes "0 < rows g" and "0 < columns g"
  shows "candidate g L bits = Inr (attempts g (bit_dirs L bits) (start g, True)) \<and>
         (snd (attempts g (bit_dirs L bits) (start g, True)) \<longleftrightarrow>
            full_replay g L bits \<noteq> None) \<and>
         (snd (attempts g (bit_dirs L bits) (start g, True)) \<longrightarrow>
            full_replay g L bits = Some (fst (attempts g (bit_dirs L bits) (start g, True))))"
  using candidate_full_replay [OF assms, of L bits]
  by (cases "full_replay g L bits") auto

theorem replay_attempts_every_step_witness:
  "candidate blocked_yard 2 2 =
     Inr (\<lparr>path_steps = [STEP_DIRECTION_SOUTH, STEP_DIRECTION_EAST], path_cranes = 1\<rparr>, True) \<and>
   full_replay blocked_yard 2 2 =
     Some \<lparr>path_steps = [STEP_DIRECTION_SOUTH, STEP_DIRECTION_EAST], path_cranes = 1\<rparr>"
proof -
  have a: "attempts blocked_yard (bit_dirs 2 2) (start blocked_yard, True) =
      (\<lparr>path_steps = [STEP_DIRECTION_SOUTH, STEP_DIRECTION_EAST], path_cranes = 1\<rparr>, True)"
    by code_simp
  have "0 < rows blocked_yard" "0 < columns blocked_yard"
    by (simp_all add: blocked_yard_def)
  from replay_attempts_every_step [OF this, of 2 2] show ?thesis
    by (simp add: a)
qed

subsection \<open>Replacing the best path\<close>

text \<open>
  C4: the search starts from the zero-length path at the start cell. The loop body replaces the incumbent exactly when the candidate's walk succeeds
  for all its steps and its crane count is strictly greater. The search starts from the
  zero-length path, so the result is the first path of the enumeration (the zero-length
  path, then the valid candidates in the order they are tried) among those with the
  greatest crane count: every earlier one has strictly fewer cranes, no later one has
  more.
\<close>

theorem best_replaced_on_strict_improvement:
  assumes "0 < rows g" and "0 < columns g" and "rows g + columns g - 2 < 64"
  shows "crane_unloading_exhaustive g =
           for_each [1..<rows g + columns g - 2 + 1] (all_bits g) (start g) \<and>
         path_steps (start g) = [] \<and>
         update_best g steps bits best =
           Inr (case full_replay g steps bits of
                  None \<Rightarrow> best
                | Some c \<Rightarrow> if total_cranes best < total_cranes c then c else best) \<and>
         (\<exists>r pre post.
            crane_unloading_exhaustive g = Inr r \<and>
            start g # valid_candidates g = pre @ r # post \<and>
            (\<forall>y \<in> set pre. total_cranes y < total_cranes r) \<and>
            (\<forall>y \<in> set post. total_cranes y \<le> total_cranes r))"
proof (intro conjI)
  show "crane_unloading_exhaustive g =
          for_each [1..<rows g + columns g - 2 + 1] (all_bits g) (start g)"
    using assms by (simp add: crane_unloading_exhaustive_def new_path_start Let_def)
  show "path_steps (start g) = []"
    by (simp add: start_def)
  show "update_best g steps bits best =
           Inr (case full_replay g steps bits of
                  None \<Rightarrow> best
                | Some c \<Rightarrow> if total_cranes best < total_cranes c then c else best)"
    by (simp add: update_best_eq [OF assms(1,2)] better_def split: option.splits)
  from foldl_better_first [of "start g" "valid_candidates g"] exhaustive_as_fold [OF assms]
  show "\<exists>r pre post.
            crane_unloading_exhaustive g = Inr r \<and>
            start g # valid_candidates g = pre @ r # post \<and>
            (\<forall>y \<in> set pre. total_cranes y < total_cranes r) \<and>
            (\<forall>y \<in> set post. total_cranes y \<le> total_cranes r)"
    by auto
qed

theorem best_replaced_on_strict_improvement_witness:
  "crane_unloading_exhaustive blocked_yard =
     for_each [1..<rows blocked_yard + columns blocked_yard - 2 + 1] (all_bits blocked_yard)
       (start blocked_yard) \<and>
   path_steps (start blocked_yard) = [] \<and>
   update_best blocked_yard 2 2 (start blocked_yard) =
     Inr \<lparr>path_steps = [STEP_DIRECTION_SOUTH, STEP_DIRECTION_EAST], path_cranes = 1\<rparr> \<and>
   (\<exists>r pre post.
      crane_unloading_exhaustive blocked_yard = Inr r \<and>
      start blocked_yard # valid_candidates blocked_yard = pre @ r # post \<and>
      (\<forall>y \<in> set pre. total_cranes y < total_cranes r) \<and>
      (\<forall>y \<in> set post. total_cranes y \<le> total_cranes r))"
proof -
  have c: "(case full_replay blocked_yard 2 2 of
              None \<Rightarrow> start blocked_yard
            | Some c \<Rightarrow> if total_cranes (start blocked_yard) < total_cranes c then c
                        else start blocked_yard) =
           \<lparr>path_steps = [STEP_DIRECTION_SOUTH, STEP_DIRECTION_EAST], path_cranes = 1\<rparr>"
    by code_simp
  have "0 < rows blocked_yard" "0 < columns blocked_yard"
    "rows blocked_yard + columns blocked_yard - 2 < 64"
    by (simp_all add: blocked_yard_def)
  from best_replaced_on_strict_improvement [OF this, of 2 2 "start blocked_yard"]
  show ?thesis unfolding c .
qed

subsection \<open>Only valid candidates count\<close>

text \<open>
  C10: a candidate with an invalid step ends the replay with its flag cleared and
  leaves the best path as it was. So the solver returns what the search over the valid
  candidates alone returns, where a candidate is replayed by a walk that stops at its
  first invalid step (\<open>exhaustive_valid_only\<close>).
\<close>

theorem exhaustive_considers_valid_only:
  assumes "0 < rows g" and "0 < columns g" and "rows g + columns g - 2 < 64"
  shows "(full_replay g steps bits = None \<longrightarrow>
            (\<exists>c. candidate g steps bits = Inr (c, False)) \<and>
            update_best g steps bits best = Inr best) \<and>
         crane_unloading_exhaustive g = Inr (exhaustive_valid_only g)"
proof
  show "full_replay g steps bits = None \<longrightarrow>
            (\<exists>c. candidate g steps bits = Inr (c, False)) \<and>
            update_best g steps bits best = Inr best"
    using candidate_full_replay [OF assms(1,2), of steps bits]
      update_best_eq [OF assms(1,2), of steps bits best]
    by (auto simp: prod_eq_iff)
  show "crane_unloading_exhaustive g = Inr (exhaustive_valid_only g)"
    unfolding exhaustive_valid_only_def by (rule exhaustive_as_fold [OF assms])
qed

theorem exhaustive_considers_valid_only_witness:
  "full_replay blocked_yard 2 1 = None \<and>
   (\<exists>c. candidate blocked_yard 2 1 = Inr (c, False)) \<and>
   update_best blocked_yard 2 1 (start blocked_yard) = Inr (start blocked_yard) \<and>
   crane_unloading_exhaustive blocked_yard = Inr (exhaustive_valid_only blocked_yard)"
proof -
  have n: "full_replay blocked_yard 2 1 = None" by code_simp
  have "0 < rows blocked_yard" "0 < columns blocked_yard"
    "rows blocked_yard + columns blocked_yard - 2 < 64"
    by (simp_all add: blocked_yard_def)
  from exhaustive_considers_valid_only [OF this, of 2 1 "start blocked_yard"] n
  show ?thesis by simp
qed

subsection \<open>Returned paths stay on the grid\<close>

text \<open>
  C5: on a non-empty grid whose start cell is not a building, the path either solver
  returns visits only cells inside the grid that are not buildings, and each cell it
  visits lies one row below or one column to the right of the cell before it. The
  exhaustive solver returns a path when \<open>rows + columns - 2 < 64\<close>.
\<close>

theorem returned_paths_stay_on_grid:
  assumes "0 < rows g" and "0 < columns g" and "cells g 0 0 \<noteq> CELL_BUILDING"
  shows "(rows g + columns g - 2 < 64 \<longrightarrow>
            (\<exists>p. crane_unloading_exhaustive g = Inr p \<and>
               list_all (free_cell g) (visited (path_steps p)) \<and>
               one_apart (visited (path_steps p)))) \<and>
         (\<exists>q. crane_unloading_dyn_prog g = Inr q \<and>
            list_all (free_cell g) (visited (path_steps q)) \<and>
            one_apart (visited (path_steps q)))"
proof (intro conjI impI)
  assume "rows g + columns g - 2 < 64"
  from exhaustive_optimal [OF assms(1,2) this] obtain p where
    "crane_unloading_exhaustive g = Inr p" "optimal g p" by blast
  with optimal_on_grid [OF _ assms(3)]
  show "\<exists>p. crane_unloading_exhaustive g = Inr p \<and>
          list_all (free_cell g) (visited (path_steps p)) \<and> one_apart (visited (path_steps p))"
    by (auto simp: on_grid_def)
next
  from dyn_prog_optimal [OF assms(1,2)] obtain q where
    "crane_unloading_dyn_prog g = Inr q" "optimal g q" by blast
  with optimal_on_grid [OF _ assms(3)]
  show "\<exists>q. crane_unloading_dyn_prog g = Inr q \<and>
          list_all (free_cell g) (visited (path_steps q)) \<and> one_apart (visited (path_steps q))"
    by (auto simp: on_grid_def)
qed

theorem returned_paths_stay_on_grid_witness:
  "(\<exists>p. crane_unloading_exhaustive blocked_yard = Inr p \<and>
      list_all (free_cell blocked_yard) (visited (path_steps p)) \<and>
      one_apart (visited (path_steps p))) \<and>
   (\<exists>q. crane_unloading_dyn_prog blocked_yard = Inr q \<and>
      list_all (free_cell blocked_yard) (visited (path_steps q)) \<and>
      one_apart (visited (path_steps q)))"
proof -
  have "0 < rows blocked_yard" "0 < columns blocked_yard"
    "cells blocked_yard 0 0 \<noteq> CELL_BUILDING"
    by (simp_all add: blocked_yard_def)
  from returned_paths_stay_on_grid [OF this]
  have "rows blocked_yard + columns blocked_yard - 2 < 64 \<longrightarrow>
      (\<exists>p. crane_unloading_exhaustive blocked_yard = Inr p \<and>
         list_all (free_cell blocked_yard) (visited (path_steps p)) \<and>
         one_apart (visited (path_steps p)))"
    and dp: "\<exists>q. crane_unloading_dyn_prog blocked_yard = Inr q \<and>
      list_all (free_cell blocked_yard) (visited (path_steps q)) \<and>
      one_apart (visited (path_steps q))"
    by blast+
  moreover have "rows blocked_yard + columns blocked_yard - 2 < 64"
    by (simp add: blocked_yard_def)
  ultimately show ?thesis by blast
qed

subsection \<open>Assertions\<close>

text \<open>
  C7: on a grid without rows or without columns both solvers fail by assertion; the
  failure is the assertion's and not the out-of-range access that constructing a path
  on such a grid would raise, so nothing was attempted before it. The exhaustive
  solver also fails by assertion when \<open>rows + columns - 2 \<ge> 64\<close>. In every other case
  the solvers return a path: no assertion fires.
\<close>

theorem assertions_guard_the_solvers:
  "(rows g = 0 \<or> columns g = 0 \<longrightarrow>
      crane_unloading_exhaustive g = Inl AssertionFailed \<and>
      crane_unloading_dyn_prog g = Inl AssertionFailed) \<and>
   (0 < rows g \<and> 0 < columns g \<and> 64 \<le> rows g + columns g - 2 \<longrightarrow>
      crane_unloading_exhaustive g = Inl AssertionFailed) \<and>
   (0 < rows g \<and> 0 < columns g \<and> rows g + columns g - 2 < 64 \<longrightarrow>
      (\<exists>p. crane_unloading_exhaustive g = Inr p)) \<and>
   (0 < rows g \<and> 0 < columns g \<longrightarrow> (\<exists>p. crane_unloading_dyn_prog g = Inr p))"
proof (intro conjI impI)
  assume "rows g = 0 \<or> columns g = 0"
  then show "crane_unloading_exhaustive g = Inl AssertionFailed"
    "crane_unloading_dyn_prog g = Inl AssertionFailed"
    by (auto simp: crane_unloading_exhaustive_def crane_unloading_dyn_prog_def)
next
  assume "0 < rows g \<and> 0 < columns g \<and> 64 \<le> rows g + columns g - 2"
  then show "crane_unloading_exhaustive g = Inl AssertionFailed"
    by (simp add: crane_unloading_exhaustive_def Let_def)
next
  assume "0 < rows g \<and> 0 < columns g \<and> rows g + columns g - 2 < 64"
  then show "\<exists>p. crane_unloading_exhaustive g = Inr p"
    using exhaustive_optimal [of g] by blast
next
  assume "0 < rows g \<and> 0 < columns g"
  then show "\<exists>p. crane_unloading_dyn_prog g = Inr p"
    using dyn_prog_optimal [of g] by blast
qed

theorem assertions_guard_the_solvers_witness:
  "crane_unloading_exhaustive no_rows = Inl AssertionFailed \<and>
   crane_unloading_dyn_prog no_rows = Inl AssertionFailed \<and>
   crane_unloading_exhaustive long_quay = Inl AssertionFailed \<and>
   (\<exists>p. crane_unloading_dyn_prog long_quay = Inr p) \<and>
   (\<exists>p. crane_unloading_exhaustive blocked_yard = Inr p) \<and>
   (\<exists>p. crane_unloading_dyn_prog blocked_yard = Inr p)"
proof -
  have "rows no_rows = 0 \<or> columns no_rows = 0"
    by (simp add: no_rows_def)
  moreover have "0 < rows long_quay \<and> 0 < columns long_quay \<and>
      64 \<le> rows long_quay + columns long_quay - 2"
    by (simp add: long_quay_def)
  moreover have "0 < rows blocked_yard \<and> 0 < columns blocked_yard \<and>
      rows blocked_yard + columns blocked_yard - 2 < 64"
    by (simp add: blocked_yard_def)
  ultimately show ?thesis
    using assertions_guard_the_solvers [of no_rows] assertions_guard_the_solvers [of long_quay]
      assertions_guard_the_solvers [of blocked_yard]
    by blast
qed

subsection \<open>Buildings in the table\<close>

text \<open>
  C8: on a non-empty grid whose start cell is not a building, at every point of the
  run of the loop that fills the table (after any number \<open>n\<close> of iterations of its
  body, up to all \<open>rows * columns\<close> of them, which is the table the loop ends with),
  the entry of a building cell is absent, and a path stored in any entry visits only
  cells inside the grid that are not buildings.
\<close>

theorem buildings_never_entered:
  assumes "0 < rows g" and "0 < columns g" and "cells g 0 0 \<noteq> CELL_BUILDING"
    and "n \<le> rows g * columns g" and "table_after g n = Inr A"
    and "r < rows g" and "c < columns g"
  shows "(cells g r c = CELL_BUILDING \<longrightarrow> entry A r c = None) \<and>
         (\<forall>p. entry A r c = Some p \<longrightarrow> list_all (free_cell g) (visited (path_steps p))) \<and>
         (\<exists>A0. init_table g = Inr A0 \<and> fill_table g A0 = table_after g (rows g * columns g))"
proof (intro conjI impI allI)
  from table_after_dims [OF assms(5,4,1,2)] have f: "filled g n A" .
  {
    fix p
    assume p: "entry A r c = Some p"
    from filled_entry_genuine [OF f assms(6,7) p] have e: "ends_at g r c p" .
    then have "genuine g p" by (simp add: ends_at_def)
    from genuine_on_grid [OF this assms(3)]
    show "list_all (free_cell g) (visited (path_steps p))" by (simp add: on_grid_def)
  }
  {
    assume b: "cells g r c = CELL_BUILDING"
    show "entry A r c = None"
    proof (rule ccontr)
      assume "entry A r c \<noteq> None"
      then obtain p where p: "entry A r c = Some p" by auto
      from filled_entry_genuine [OF f assms(6,7) p] have e: "ends_at g r c p" .
      from b assms(3) have "0 < r + c" by (cases "r + c") auto
      from ends_at_cases [OF e this] b show False by simp
    qed
  }
  from init_table_filled [OF assms(1,2)] obtain A0 where "init_table g = Inr A0" by blast
  with fill_table_after [OF this]
  show "\<exists>A0. init_table g = Inr A0 \<and> fill_table g A0 = table_after g (rows g * columns g)"
    by blast
qed

theorem buildings_never_entered_witness:
  "entry blocked_yard_table 0 1 = None \<and>
   list_all (free_cell blocked_yard)
     (visited (path_steps \<lparr>path_steps = [STEP_DIRECTION_SOUTH], path_cranes = 0\<rparr>))"
proof -
  have h: "0 < rows blocked_yard" "0 < columns blocked_yard"
    "cells blocked_yard 0 0 \<noteq> CELL_BUILDING" "3 \<le> rows blocked_yard * columns blocked_yard"
    by (simp_all add: blocked_yard_def)
  have t: "table_after blocked_yard 3 = Inr blocked_yard_table" by code_simp
  have b: "cells blocked_yard 0 1 = CELL_BUILDING" by (simp add: blocked_yard_def)
  have e: "entry blocked_yard_table 1 0 =
      Some \<lparr>path_steps = [STEP_DIRECTION_SOUTH], path_cranes = 0\<rparr>"
    by (simp add: blocked_yard_table_def entry_def)
  have "0 < rows blocked_yard" "1 < rows blocked_yard" "0 < columns blocked_yard"
    "1 < columns blocked_yard"
    by (simp_all add: blocked_yard_def)
  with buildings_never_entered [OF h t, of 0 1] buildings_never_entered [OF h t, of 1 0] b e
  show ?thesis by blast
qed

subsection \<open>Where the stored paths end\<close>

text \<open>
  C9: at every point of the run of the loop that fills the table, a present entry
  \<open>A[r][c]\<close> holds a path that ends at \<open>(r,c)\<close>. When the loop reaches a cell \<open>(r,c)\<close>
  that is not a building, a present entry above it passes the \<^verbatim>\<open>is_step_valid\<close> check
  for a step south, so that \<^verbatim>\<open>from_above\<close> is that entry extended by one step, and a
  present entry to its left passes the check for a step east, so that
  \<^verbatim>\<open>from_left\<close> is that entry extended by one step.
\<close>

theorem entries_end_at_their_cell:
  assumes "0 < rows g" and "0 < columns g"
    and "n \<le> rows g * columns g" and "table_after g n = Inr A"
    and "r < rows g" and "c < columns g"
  shows "(\<forall>p. entry A r c = Some p \<longrightarrow> final_row p = r \<and> final_column p = c) \<and>
         (n = r * columns g + c \<and> cells g r c \<noteq> CELL_BUILDING \<longrightarrow>
            (\<forall>p. 0 < r \<and> entry A (r - 1) c = Some p \<longrightarrow>
               is_step_valid g p STEP_DIRECTION_SOUTH \<and>
               from_above g A r c = Inr (Some (moved g p STEP_DIRECTION_SOUTH))) \<and>
            (\<forall>p. 0 < c \<and> entry A r (c - 1) = Some p \<longrightarrow>
               is_step_valid g p STEP_DIRECTION_EAST \<and>
               from_left g A r c = Inr (Some (moved g p STEP_DIRECTION_EAST))))"
proof (intro conjI impI allI)
  from table_after_dims [OF assms(4,3,1,2)] have f: "filled g n A" .
  {
    fix p
    assume "entry A r c = Some p"
    from filled_entry_genuine [OF f assms(5,6) this]
    show "final_row p = r" "final_column p = c" by (simp_all add: ends_at_def)
  }
  {
    fix p
    assume here: "n = r * columns g + c \<and> cells g r c \<noteq> CELL_BUILDING"
      and p: "0 < r \<and> entry A (r - 1) c = Some p"
    from p assms(5) have r': "r - 1 < rows g" by simp
    from filled_entry_genuine [OF f r' assms(6)] p have e: "ends_at g (r - 1) c p" by simp
    from step_south_valid [OF e _ assms(5,6)] p here
    show "is_step_valid g p STEP_DIRECTION_SOUTH" by simp
    from extended_south [OF e _ assms(5,6)] p here
    show "from_above g A r c = Inr (Some (moved g p STEP_DIRECTION_SOUTH))"
      by (simp add: from_above_def)
  }
  {
    fix p
    assume here: "n = r * columns g + c \<and> cells g r c \<noteq> CELL_BUILDING"
      and p: "0 < c \<and> entry A r (c - 1) = Some p"
    from p assms(6) have c': "c - 1 < columns g" by simp
    from filled_entry_genuine [OF f assms(5) c'] p have e: "ends_at g r (c - 1) p" by simp
    from step_east_valid [OF e _ assms(5,6)] p here
    show "is_step_valid g p STEP_DIRECTION_EAST" by simp
    from extended_east [OF e _ assms(5,6)] p here
    show "from_left g A r c = Inr (Some (moved g p STEP_DIRECTION_EAST))"
      by (simp add: from_left_def)
  }
qed

theorem entries_end_at_their_cell_witness:
  "final_row \<lparr>path_steps = [STEP_DIRECTION_SOUTH], path_cranes = 0\<rparr> = 1 \<and>
   final_column \<lparr>path_steps = [STEP_DIRECTION_SOUTH], path_cranes = 0\<rparr> = 0 \<and>
   is_step_valid blocked_yard \<lparr>path_steps = [STEP_DIRECTION_SOUTH], path_cranes = 0\<rparr>
     STEP_DIRECTION_EAST \<and>
   from_left blocked_yard blocked_yard_table 1 1 =
     Inr (Some (moved blocked_yard \<lparr>path_steps = [STEP_DIRECTION_SOUTH], path_cranes = 0\<rparr>
       STEP_DIRECTION_EAST))"
proof -
  have h: "0 < rows blocked_yard" "0 < columns blocked_yard"
    "3 \<le> rows blocked_yard * columns blocked_yard"
    by (simp_all add: blocked_yard_def)
  have t: "table_after blocked_yard 3 = Inr blocked_yard_table" by code_simp
  have e: "entry blocked_yard_table 1 0 =
      Some \<lparr>path_steps = [STEP_DIRECTION_SOUTH], path_cranes = 0\<rparr>"
    by (simp add: blocked_yard_table_def entry_def)
  have i: "1 < rows blocked_yard" "0 < columns blocked_yard" "1 < columns blocked_yard"
    "3 = 1 * columns blocked_yard + 1 \<and> cells blocked_yard 1 1 \<noteq> CELL_BUILDING"
    by (simp_all add: blocked_yard_def)
  from entries_end_at_their_cell [OF h t i(1,2)] e
  have "final_row \<lparr>path_steps = [STEP_DIRECTION_SOUTH], path_cranes = 0\<rparr> = 1 \<and>
    final_column \<lparr>path_steps = [STEP_DIRECTION_SOUTH], path_cranes = 0\<rparr> = 0"
    by blast
  moreover from entries_end_at_their_cell [OF h t i(1,3)] i(4) e
  have "is_step_valid blocked_yard \<lparr>path_steps = [STEP_DIRECTION_SOUTH], path_cranes = 0\<rparr>
     STEP_DIRECTION_EAST \<and>
   from_left blocked_yard blocked_yard_table 1 1 =
     Inr (Some (moved blocked_yard \<lparr>path_steps = [STEP_DIRECTION_SOUTH], path_cranes = 0\<rparr>
       STEP_DIRECTION_EAST))"
    by simp
  ultimately show ?thesis by blast
qed

end
